theory Spec2Isabelle
  imports Main
begin

section \<open>The page and the automation driver\<close>

text \<open>
  The suite drives a browser through the Playwright driver. The driver and the application
  under test are not part of the repository, so the embedding fixes only what the test code
  itself relies on:
  \<^item> a page is the list of its elements in document order; an element has a tag name
    (upper case, as \<open>el.tagName\<close> reports it), its attributes, and the flags the driver's
    actionability checks read (visible, enabled, editable), and the current value of a field;
  \<^item> the selector engine (which elements a locator expression matches, in document order)
    is a parameter, \<open>query\<close>; \<open>.first()\<close> and \<open>.nth(i)\<close> are defined on its answer. The engine
    sees tags, attributes and flags, not the value typed into a field;
  \<^item> the application is a parameter as well: \<open>react\<close> gives the page shown after a history of
    driver calls, \<open>fails\<close> says whether the last call of a history raises;
  \<^item> an awaited call that raises is a step returning \<open>Some error\<close>; \<open>try/catch\<close> and
    \<open>.catch(...)\<close> are written out.
  The page a step sees is the page at the end of the driver's own waiting: an element missing
  from it is one that never turned up within the timeout.
\<close>

record element =
  tag :: string
  attrs :: "(string \<times> string) list"
  visible :: bool
  enabled :: bool
  editable :: bool
  val :: string

datatype locator =
    Css string
  | TestId string
  | Role string string
  | Text string
  | Filter locator string
  | First locator
  | Nth locator nat

datatype error = TimeoutError | StrictModeViolation | NavigationError | AssertionError

datatype action =
    Goto string
  | WaitForLoadState
  | WaitForTimeout nat
  | WaitFor locator
  | Click locator nat
  | Fill locator nat string
  | SelectOption locator nat string

record session =
  elems :: "element list"
  calls :: "action list"

record env =
  query :: "locator \<Rightarrow> element list \<Rightarrow> nat list"
  react :: "action list \<Rightarrow> element list"
  fails :: "action list \<Rightarrow> error option"

type_synonym step = "session \<Rightarrow> error option \<times> session"

definition blank :: "element \<Rightarrow> element" where
  "blank e = e\<lparr>val := []\<rparr>"

fun resolve :: "env \<Rightarrow> locator \<Rightarrow> element list \<Rightarrow> nat list" where
  "resolve env (First l) d = take 1 (resolve env l d)"
| "resolve env (Nth l i) d = (let r = resolve env l d in if i < length r then [r ! i] else [])"
| "resolve env l d = filter (\<lambda>j. j < length d) (query env l (map blank d))"

text \<open>An action needs exactly one element: none is a timeout, several a strictness error.\<close>

definition target :: "env \<Rightarrow> locator \<Rightarrow> session \<Rightarrow> error + nat" where
  "target env l s =
     (case resolve env l (elems s) of
        [] \<Rightarrow> Inl TimeoutError
      | [j] \<Rightarrow> Inr j
      | _ \<Rightarrow> Inl StrictModeViolation)"

definition perform :: "env \<Rightarrow> action \<Rightarrow> step" where
  "perform env a s =
     (let h = calls s @ [a] in (fails env h, \<lparr>elems = react env h, calls = h\<rparr>))"

definition goto :: "env \<Rightarrow> string \<Rightarrow> step" where
  "goto env url = perform env (Goto url)"

definition waitForLoadState :: "env \<Rightarrow> step" where
  "waitForLoadState env = perform env WaitForLoadState"

text \<open>A fixed delay does not raise; the page may have changed when it is over.\<close>

definition waitForTimeout :: "env \<Rightarrow> nat \<Rightarrow> step" where
  "waitForTimeout env ms s = (None, snd (perform env (WaitForTimeout ms) s))"

text \<open>\<open>isVisible\<close> does not wait: no element is \<open>false\<close>, not an error.\<close>

definition isVisible :: "env \<Rightarrow> locator \<Rightarrow> session \<Rightarrow> error + bool" where
  "isVisible env l s =
     (case resolve env l (elems s) of
        [] \<Rightarrow> Inr False
      | [j] \<Rightarrow> Inr (visible (elems s ! j))
      | _ \<Rightarrow> Inl StrictModeViolation)"

text \<open>An explicit wait for an element: the page may change while waiting; at the end the
  element has to be visible.\<close>

definition waitFor :: "env \<Rightarrow> locator \<Rightarrow> step" where
  "waitFor env l s =
     (case perform env (WaitFor l) s of
        (Some e, s') \<Rightarrow> (Some e, s')
      | (None, s') \<Rightarrow>
          (case isVisible env l s' of
             Inl e \<Rightarrow> (Some e, s')
           | Inr True \<Rightarrow> (None, s')
           | Inr False \<Rightarrow> (Some TimeoutError, s')))"

text \<open>Actions wait for their element to be actionable: a click or a selection needs it
  visible and enabled, a fill needs it editable too; otherwise the wait times out and
  nothing is dispatched. What a click or a selection does to the page is the
  application's business; a fill sets the value of the element.\<close>

definition click :: "env \<Rightarrow> locator \<Rightarrow> step" where
  "click env l s =
     (case target env l s of
        Inl e \<Rightarrow> (Some e, s)
      | Inr j \<Rightarrow>
          if visible (elems s ! j) \<and> enabled (elems s ! j)
          then perform env (Click l j) s
          else (Some TimeoutError, s))"

definition selectOption :: "env \<Rightarrow> locator \<Rightarrow> string \<Rightarrow> step" where
  "selectOption env l v s =
     (case target env l s of
        Inl e \<Rightarrow> (Some e, s)
      | Inr j \<Rightarrow>
          if visible (elems s ! j) \<and> enabled (elems s ! j)
          then perform env (SelectOption l j v) s
          else (Some TimeoutError, s))"

definition fill :: "env \<Rightarrow> locator \<Rightarrow> string \<Rightarrow> step" where
  "fill env l v s =
     (case target env l s of
        Inl e \<Rightarrow> (Some e, s)
      | Inr j \<Rightarrow>
          if visible (elems s ! j) \<and> enabled (elems s ! j) \<and> editable (elems s ! j)
          then (None, \<lparr>elems = (elems s)[j := (elems s ! j)\<lparr>val := v\<rparr>],
                       calls = calls s @ [Fill l j v]\<rparr>)
          else (Some TimeoutError, s))"

text \<open>Reading an attribute (null when it is absent) or the tag name waits for the element
  to exist.\<close>

definition getAttribute :: "env \<Rightarrow> locator \<Rightarrow> string \<Rightarrow> session \<Rightarrow> error + string option" where
  "getAttribute env l a s =
     (case target env l s of
        Inl e \<Rightarrow> Inl e
      | Inr j \<Rightarrow> Inr (map_of (attrs (elems s ! j)) a))"

definition evaluate_tagName :: "env \<Rightarrow> locator \<Rightarrow> session \<Rightarrow> error + string" where
  "evaluate_tagName env l s =
     (case target env l s of
        Inl e \<Rightarrow> Inl e
      | Inr j \<Rightarrow> Inr (tag (elems s ! j)))"

definition count :: "env \<Rightarrow> locator \<Rightarrow> session \<Rightarrow> nat" where
  "count env l s = length (resolve env l (elems s))"

definition expect_toBeVisible :: "env \<Rightarrow> locator \<Rightarrow> step" where
  "expect_toBeVisible env l s =
     (case isVisible env l s of
        Inl e \<Rightarrow> (Some e, s)
      | Inr True \<Rightarrow> (None, s)
      | Inr False \<Rightarrow> (Some AssertionError, s))"

text \<open>A sequence of awaited statements stops at the first one that raises.\<close>

fun steps :: "step list \<Rightarrow> step" where
  "steps [] s = (None, s)"
| "steps (f # fs) s =
     (case f s of
        (Some e, s') \<Rightarrow> (Some e, s')
      | (None, s') \<Rightarrow> steps fs s')"

definition try_catch :: "step \<Rightarrow> step \<Rightarrow> step" where
  "try_catch body handler s =
     (case body s of
        (Some e, s') \<Rightarrow> handler s'
      | (None, s') \<Rightarrow> (None, s'))"

section \<open>Run configuration\<close>

record config =
  testDir :: string
  fullyParallel :: bool
  forbidOnly :: bool
  retries :: nat
  workers :: "nat option"
  expect_timeout :: "nat option"
  reporter :: string
  use_trace :: string
  baseURL :: string
  projects :: "string list"

text \<open>\<open>process.env.CI\<close> is a string or undefined; undefined and the empty string are falsy.\<close>

definition truthy :: "string option \<Rightarrow> bool" where
  "truthy v = (case v of None \<Rightarrow> False | Some t \<Rightarrow> t \<noteq> [])"

text \<open>The configuration in playwright.config.ts: fully parallel, and no \<open>expect\<close> block, so no
  expectation timeout of its own.\<close>

definition playwright_config :: "string option \<Rightarrow> config" where
  "playwright_config ci =
     \<lparr>testDir = ''./tests'',
      fullyParallel = True,
      forbidOnly = truthy ci,
      retries = (if truthy ci then 2 else 0),
      workers = (if truthy ci then Some 1 else None),
      expect_timeout = None,
      reporter = ''html'',
      use_trace = ''on-first-retry'',
      baseURL = ''http://localhost:8002/'',
      projects = [''chromium'']\<rparr>"

text \<open>The second, unnamed copy of the configuration (part 001): not fully parallel, and an
  \<open>expect\<close> block with a timeout of 20000 ms.\<close>

definition playwright_config_part_001 :: "string option \<Rightarrow> config" where
  "playwright_config_part_001 ci =
     \<lparr>testDir = ''./tests'',
      fullyParallel = False,
      forbidOnly = truthy ci,
      retries = (if truthy ci then 2 else 0),
      workers = (if truthy ci then Some 1 else None),
      expect_timeout = Some 20000,
      reporter = ''html'',
      use_trace = ''on-first-retry'',
      baseURL = ''http://localhost:8002/'',
      projects = [''chromium'']\<rparr>"

section \<open>Form-fill utility (fillFormField)\<close>

text \<open>The recurring shape \<open>if (await locator.isVisible()) { ... }\<close>.\<close>

definition when_visible :: "env \<Rightarrow> locator \<Rightarrow> step \<Rightarrow> step" where
  "when_visible env l body s =
     (case isVisible env l s of
        Inl e \<Rightarrow> (Some e, s)
      | Inr True \<Rightarrow> body s
      | Inr False \<Rightarrow> (None, s))"

definition fillFormField :: "env \<Rightarrow> string \<Rightarrow> string \<Rightarrow> step" where
  "fillFormField env selector v =
     (let field = First (Css selector) in when_visible env field (fill env field v))"

text \<open>An empty \<open>catch\<close> block.\<close>

definition ignore :: step where
  "ignore s = (None, s)"

section \<open>Service creation workflow (createService)\<close>

definition createService :: "env \<Rightarrow> string \<Rightarrow> string \<Rightarrow> step" where
  \<open>createService env name url =
     steps
      [try_catch (goto env ''/default/services/create'')
                 (click env (TestId ''new-gateway-service'')),
       waitForLoadState env,
       fillFormField env ''input[name*="name" i]'' name,
       fillFormField env ''input[name*="url" i]'' url,
       click env (Role ''button'' ''/save/i''),
       waitForLoadState env,
       waitForTimeout env 5000]\<close>

section \<open>Route creation by test identifiers (createRoute, part 000)\<close>

definition createRoute :: "env \<Rightarrow> string \<Rightarrow> string \<Rightarrow> step" where
  \<open>createRoute env name path =
     steps
      [goto env ''/default/routes/create'',
       waitForLoadState env,
       waitForTimeout env 2000,
       fill env (TestId ''route-form-name'') name,
       click env (TestId ''route-form-service-id''),
       click env (Text ''test-service''),
       fill env (TestId ''route-form-paths-input-1'') path,
       click env (Role ''button'' ''/save/i'')]\<close>

section \<open>Before-each hook\<close>

datatype hook_result = Ready | Skip string | Raised error

definition main_container :: locator where
  \<open>main_container = First (Css ''[data-testid="app-layout"], [class*="main"], body'')\<close>

definition licensePopup :: locator where
  \<open>licensePopup = First (Css ''button:has-text("OK")'')\<close>

text \<open>The \<open>try\<close> block of the hook: root navigation, then the wait for the main container.\<close>

definition probe_root :: "env \<Rightarrow> step" where
  "probe_root env = steps [goto env ''/'', waitFor env main_container]"

definition beforeEach :: "env \<Rightarrow> session \<Rightarrow> hook_result \<times> session" where
  "beforeEach env s =
     (case probe_root env s of
        (Some e, s1) \<Rightarrow>
          (Skip ''Kong Manager not reachable at baseURL; skipping UI tests'', s1)
      | (None, s1) \<Rightarrow>
          (let s2 = snd (waitForTimeout env 2000 s1) in
           case when_visible env licensePopup
                  (steps [click env licensePopup, waitForTimeout env 1000]) s2 of
             (Some e, s3) \<Rightarrow> (Raised e, s3)
           | (None, s3) \<Rightarrow> (Ready, s3)))"

section \<open>Scenario A: create a service\<close>

definition scenario_A :: "env \<Rightarrow> step" where
  "scenario_A env =
     steps
      [createService env ''test-service'' ''http://example.com:80'',
       goto env ''/default/services'',
       waitForLoadState env,
       expect_toBeVisible env (Role ''button'' ''test-service'')]"

section \<open>Scenario B: create a route (heuristic variant)\<close>

text \<open>Lines 100-131: reach the route form through the routes link, else directly.\<close>

definition routesNav :: "env \<Rightarrow> session \<Rightarrow> bool \<times> session" where
  "routesNav env s =
     (let routesLink = First (Role ''link'' ''/routes/i'') in
      case isVisible env routesLink s of
        Inl e \<Rightarrow> (False, s)
      | Inr False \<Rightarrow> (False, s)
      | Inr True \<Rightarrow>
          (case steps [click env routesLink, waitForLoadState env] s of
             (Some e, s') \<Rightarrow> (False, s')
           | (None, s') \<Rightarrow> (True, s')))"

definition open_route_form :: "env \<Rightarrow> step" where
  "open_route_form env s =
     (let direct = steps [goto env ''/default/routes/create'', waitForLoadState env];
          createRouteBtn = First (Role ''button'' ''/new|create/i'')
      in case routesNav env s of
           (False, s') \<Rightarrow> direct s'
         | (True, s') \<Rightarrow>
             try_catch
               (when_visible env createRouteBtn
                  (steps [click env createRouteBtn, waitForLoadState env]))
               direct s')"

text \<open>Lines 137-158: the scan over all text inputs. \<open>!x\<close> and \<open>x?.toLowerCase().includes(y)\<close>
  on an attribute value that is a string or null; strings are byte strings, and only the
  ASCII capitals are folded, which cannot miss an occurrence of the letters of \<open>path\<close>.\<close>

definition js_not :: "string option \<Rightarrow> bool" where
  "js_not v = (v = None \<or> v = Some [])"

definition toLowerCase_char :: "char \<Rightarrow> char" where
  "toLowerCase_char c =
     (let n = (of_char c :: nat) in if 65 \<le> n \<and> n \<le> 90 then char_of (n + 32) else c)"

definition toLowerCase :: "string \<Rightarrow> string" where
  "toLowerCase = map toLowerCase_char"

fun js_includes :: "string \<Rightarrow> string \<Rightarrow> bool" where
  "js_includes [] sub = (sub = [])"
| "js_includes (c # cs) sub = (take (length sub) (c # cs) = sub \<or> js_includes cs sub)"

definition lower_includes :: "string option \<Rightarrow> string \<Rightarrow> bool" where
  "lower_includes v sub =
     (case v of None \<Rightarrow> False | Some t \<Rightarrow> js_includes (toLowerCase t) sub)"

definition isVisible_or_false :: "env \<Rightarrow> locator \<Rightarrow> session \<Rightarrow> bool" where
  "isVisible_or_false env l s = (case isVisible env l s of Inl e \<Rightarrow> False | Inr b \<Rightarrow> b)"

definition getAttribute_or_empty :: "env \<Rightarrow> locator \<Rightarrow> string \<Rightarrow> session \<Rightarrow> string option" where
  "getAttribute_or_empty env l a s =
     (case getAttribute env l a s of Inl e \<Rightarrow> Some [] | Inr v \<Rightarrow> v)"

definition allInputs :: locator where
  \<open>allInputs = Css ''input[type="text"]''\<close>

fun scan_inputs ::
  "env \<Rightarrow> nat list \<Rightarrow> bool \<times> bool \<Rightarrow> session \<Rightarrow> error option \<times> (bool \<times> bool) \<times> session" where
  "scan_inputs env [] (namedFilled, pathFilled) s = (None, (namedFilled, pathFilled), s)"
| "scan_inputs env (i # is) (namedFilled, pathFilled) s =
     (let input = Nth allInputs i;
          isVis = isVisible_or_false env input s;
          placeholder = getAttribute_or_empty env input ''placeholder'' s;
          name = getAttribute_or_empty env input ''name'' s
      in if isVis \<and> \<not> namedFilled \<and> (js_not placeholder \<and> js_not name) then
           (case fill env input ''test-route'' s of
              (Some e, s') \<Rightarrow> (Some e, (namedFilled, pathFilled), s')
            | (None, s') \<Rightarrow> scan_inputs env is (True, pathFilled) s')
         else if isVis \<and> \<not> pathFilled \<and>
                 (lower_includes placeholder ''path'' \<or> lower_includes name ''path'') then
           (case fill env input ''/test-path'' s of
              (Some e, s') \<Rightarrow> (Some e, (namedFilled, pathFilled), s')
            | (None, s') \<Rightarrow> scan_inputs env is (namedFilled, True) s')
         else scan_inputs env is (namedFilled, pathFilled) s)"

text \<open>Lines 160-177: the direct selectors, tried for a field the scan did not fill.\<close>

definition nameInput :: locator where
  \<open>nameInput =
     First (Css ''input[placeholder*="name" i], input[name*="name" i], label:has-text("Name") ~ input'')\<close>

definition pathInput :: locator where
  \<open>pathInput = First (Css ''input[placeholder*="path" i], input[name*="path" i]'')\<close>

definition fill_route_fields :: "env \<Rightarrow> step" where
  "fill_route_fields env s =
     (case scan_inputs env [0..<count env allInputs s] (False, False) s of
        (Some e, _, s1) \<Rightarrow> (Some e, s1)
      | (None, (namedFilled, pathFilled), s1) \<Rightarrow>
          steps
           [if \<not> namedFilled
            then try_catch (when_visible env nameInput (fill env nameInput ''test-route'')) ignore
            else ignore,
            if \<not> pathFilled
            then try_catch (when_visible env pathInput (fill env pathInput ''/test-path'')) ignore
            else ignore] s1)"

text \<open>Lines 180-204: protocol selection.\<close>

definition protocolSelectors :: "string list" where
  \<open>protocolSelectors =
     [''select[name*="protocol" i]'',
      ''[role="combobox"][aria-label*="protocol" i]'',
      ''input[name*="protocol" i]'',
      ''div[class*="protocol"] select'',
      ''div[class*="protocol"] input'']\<close>

definition choose_http :: "env \<Rightarrow> locator \<Rightarrow> step" where
  "choose_http env elem s =
     (case evaluate_tagName env elem s of
        Inl e \<Rightarrow> (Some e, s)
      | Inr tagName \<Rightarrow>
          if tagName = ''SELECT'' then try_catch (selectOption env elem ''http'') ignore s
          else steps [try_catch (click env elem) ignore,
                      try_catch (click env (First (Role ''option'' ''/http/i''))) ignore] s)"

fun protocol_loop :: "env \<Rightarrow> string list \<Rightarrow> step" where
  "protocol_loop env [] s = (None, s)"
| "protocol_loop env (selector # rest) s =
     (let elem = First (Css selector) in
      case isVisible env elem s of
        Inl e \<Rightarrow> protocol_loop env rest s
      | Inr False \<Rightarrow> protocol_loop env rest s
      | Inr True \<Rightarrow>
          (case choose_http env elem s of
             (Some e, s') \<Rightarrow> protocol_loop env rest s'
           | (None, s') \<Rightarrow> (None, s')))"

text \<open>Lines 207-227: submission; the flag \<open>submitted\<close> is written and never read.\<close>

definition submit_route :: "env \<Rightarrow> step" where
  "submit_route env =
     (let saveBtn = First (Role ''button'' ''/save|create|submit/i'');
          btn = First (Filter (Css ''button'') ''/save|create|submit/i'');
          press = (\<lambda>b. when_visible env b
                     (steps [click env b, waitForTimeout env 3000, waitForLoadState env]))
      in try_catch (press saveBtn) (try_catch (press btn) ignore))"

definition scenario_B :: "env \<Rightarrow> step" where
  "scenario_B env =
     steps
      [goto env ''/default/services'',
       waitForLoadState env,
       waitFor env (First (Role ''button'' ''test-service'')),
       click env (Role ''button'' ''test-service''),
       waitForLoadState env,
       waitForTimeout env 2000,
       open_route_form env,
       waitForTimeout env 2000,
       fill_route_fields env,
       protocol_loop env protocolSelectors,
       submit_route env,
       goto env ''/default/routes'',
       waitForTimeout env 2000,
       waitForLoadState env,
       expect_toBeVisible env (Role ''button'' ''test-route'')]"

section \<open>The runner, as far as the suite relies on it\<close>

text \<open>
  One attempt of the serial group: every test gets a fresh, blank page; the hook runs
  first; a skip in the hook ends the test as skipped, an error ends it as failed, and
  after a failure the rest of a serial group is skipped. The run exits with 0 when no test
  failed.
\<close>

datatype status = Passed | Failed error | Skipped string

definition new_page :: "session \<Rightarrow> session" where
  "new_page s = s\<lparr>elems := []\<rparr>"

definition run_test :: "env \<Rightarrow> step \<Rightarrow> session \<Rightarrow> status \<times> session" where
  "run_test env body s =
     (case beforeEach env (new_page s) of
        (Skip reason, s1) \<Rightarrow> (Skipped reason, s1)
      | (Raised e, s1) \<Rightarrow> (Failed e, s1)
      | (Ready, s1) \<Rightarrow>
          (case body s1 of
             (Some e, s2) \<Rightarrow> (Failed e, s2)
           | (None, s2) \<Rightarrow> (Passed, s2)))"

fun run_serial :: "env \<Rightarrow> step list \<Rightarrow> session \<Rightarrow> status list" where
  "run_serial env [] s = []"
| "run_serial env (body # rest) s =
     (case run_test env body s of
        (Failed e, s') \<Rightarrow> Failed e # map (\<lambda>_. Skipped ''serial group: an earlier test failed'') rest
      | (st, s') \<Rightarrow> st # run_serial env rest s')"

definition is_failed :: "status \<Rightarrow> bool" where
  "is_failed st = (case st of Failed e \<Rightarrow> True | _ \<Rightarrow> False)"

definition exit_code :: "status list \<Rightarrow> nat" where
  "exit_code sts = (if list_ex is_failed sts then 1 else 0)"

definition suite :: "env \<Rightarrow> session \<Rightarrow> status list" where
  "suite env s = run_serial env [scenario_A env, scenario_B env] s"

section \<open>Notions used in the statements\<close>

text \<open>The locator a driver call goes through, and kinds of calls.\<close>

fun action_locator :: "action \<Rightarrow> locator option" where
  "action_locator (Click l j) = Some l"
| "action_locator (Fill l j v) = Some l"
| "action_locator (SelectOption l j v) = Some l"
| "action_locator (WaitFor l) = Some l"
| "action_locator a = None"

fun is_click :: "action \<Rightarrow> bool" where
  "is_click (Click l j) = True"
| "is_click a = False"

definition is_navigation :: "action \<Rightarrow> bool" where
  "is_navigation a = (case a of Goto u \<Rightarrow> True | WaitForLoadState \<Rightarrow> True | WaitForTimeout n \<Rightarrow> True
      | _ \<Rightarrow> False)"

fun writes :: "string \<Rightarrow> action \<Rightarrow> bool" where
  "writes v (Fill l j w) = (w = v)"
| "writes v a = False"

text \<open>A locator that goes through a test identifier.\<close>

fun uses_test_id :: "locator \<Rightarrow> bool" where
  "uses_test_id (TestId t) = True"
| "uses_test_id (Filter l t) = uses_test_id l"
| "uses_test_id (First l) = uses_test_id l"
| "uses_test_id (Nth l i) = uses_test_id l"
| "uses_test_id l = False"

definition no_test_id :: "action \<Rightarrow> bool" where
  "no_test_id a = (case action_locator a of None \<Rightarrow> True | Some l \<Rightarrow> \<not> uses_test_id l)"

text \<open>The two classes of the scan: a visible input whose name and placeholder are each
  absent or empty, and a visible input whose name or placeholder contains \<open>path\<close> in any
  letter case. \<open>first_input P\<close> is the first text input, in document order, in class \<open>P\<close>.\<close>

definition unlabelled :: "element \<Rightarrow> bool" where
  "unlabelled e =
     (visible e \<and> js_not (map_of (attrs e) ''placeholder'') \<and> js_not (map_of (attrs e) ''name''))"

definition mentions_path :: "element \<Rightarrow> bool" where
  "mentions_path e =
     (visible e \<and>
      (lower_includes (map_of (attrs e) ''placeholder'') ''path'' \<or>
       lower_includes (map_of (attrs e) ''name'') ''path''))"

definition first_input :: "(element \<Rightarrow> bool) \<Rightarrow> env \<Rightarrow> session \<Rightarrow> nat option" where
  "first_input P env s = find (\<lambda>j. P (elems s ! j)) (resolve env allInputs (elems s))"

definition is_scanned_input :: "locator \<Rightarrow> bool" where
  "is_scanned_input l = (case l of Nth l' i \<Rightarrow> l' = allInputs | _ \<Rightarrow> False)"

text \<open>A call of the fill phase: a fill through a scanned input, or through the direct name
  locator when no input is in the name class, or through the direct path locator when no
  input is in the path class.\<close>

fun fills_route_field :: "env \<Rightarrow> session \<Rightarrow> action \<Rightarrow> bool" where
  "fills_route_field env s (Fill l j v) =
     (is_scanned_input l \<or>
      (first_input unlabelled env s = None \<and> l = nameInput \<and> v = ''test-route'') \<or>
      (first_input mentions_path env s = None \<and> l = pathInput \<and> v = ''/test-path''))"
| "fills_route_field env s a = False"

text \<open>The writes one run of the scan may make, given the two flags: the name once into an
  input of the name class, the path once into an input of the path class.\<close>

definition set_val :: "nat \<Rightarrow> string \<Rightarrow> element list \<Rightarrow> element list" where
  "set_val j v d = d[j := (d ! j)\<lparr>val := v\<rparr>]"

fun scan_writes :: "element list \<Rightarrow> bool \<Rightarrow> bool \<Rightarrow> action list \<Rightarrow> bool" where
  "scan_writes d nf pf [] = True"
| "scan_writes d nf pf (Fill l j v # xs) =
     (j < length d \<and> is_scanned_input l \<and>
      (v = ''test-route'' \<and> \<not> nf \<and> unlabelled (d ! j) \<and> scan_writes d True pf xs \<or>
       v = ''/test-path'' \<and> \<not> pf \<and> mentions_path (d ! j) \<and> scan_writes d nf True xs))"
| "scan_writes d nf pf (a # xs) = False"

text \<open>What a step adds to the record of driver calls: \<open>emits P f\<close> says that \<open>f\<close> only
  appends calls, and that every call it appends satisfies \<open>P\<close>.\<close>

definition emits :: "(action \<Rightarrow> bool) \<Rightarrow> step \<Rightarrow> bool" where
  "emits P f = (\<forall>s. \<exists>xs. calls (snd (f s)) = calls s @ xs \<and> list_all P xs)"

section \<open>Concrete pages used as test inputs\<close>

text \<open>An application that always shows one fixed page; a table says which positions each
  locator matches; \<open>bad\<close> says which calls raise.\<close>

definition matching :: "(locator \<times> nat list) list \<Rightarrow> locator \<Rightarrow> nat list" where
  "matching tbl l = (case map_of tbl l of None \<Rightarrow> [] | Some js \<Rightarrow> js)"

definition app_env ::
  "element list \<Rightarrow> (locator \<times> nat list) list \<Rightarrow> (action \<Rightarrow> error option) \<Rightarrow> env" where
  "app_env d tbl bad =
     \<lparr>query = (\<lambda>l _. matching tbl l), react = (\<lambda>_. d),
      fails = (\<lambda>h. if h = [] then None else bad (last h))\<rparr>"

definition rejecting :: "string \<Rightarrow> action \<Rightarrow> error option" where
  "rejecting url a = (if a = Goto url then Some NavigationError else None)"

definition failing_selection :: "action \<Rightarrow> error option" where
  "failing_selection a = (case a of SelectOption l j v \<Rightarrow> Some TimeoutError | _ \<Rightarrow> None)"

definition on_page :: "element list \<Rightarrow> session" where
  "on_page d = \<lparr>elems = d, calls = []\<rparr>"

definition text_input :: "(string \<times> string) list \<Rightarrow> bool \<Rightarrow> element" where
  "text_input as vis =
     \<lparr>tag = ''INPUT'', attrs = (''type'', ''text'') # as, visible = vis, enabled = True,
      editable = True, val = []\<rparr>"

definition button :: element where
  "button =
     \<lparr>tag = ''BUTTON'', attrs = [], visible = True, enabled = True, editable = False, val = []\<rparr>"

definition hidden_button :: element where
  "hidden_button = button\<lparr>visible := False\<rparr>"

definition body_element :: element where
  "body_element =
     \<lparr>tag = ''BODY'', attrs = [], visible = True, enabled = True, editable = False, val = []\<rparr>"

definition services_page :: "element list" where
  "services_page = [button, button]"

definition services_tbl :: "(locator \<times> nat list) list" where
  "services_tbl = [(TestId ''new-gateway-service'', [0]), (Role ''button'' ''/save/i'', [1])]"

definition root_tbl :: "nat list \<Rightarrow> (locator \<times> nat list) list" where
  \<open>root_tbl oks =
     [(Css ''[data-testid="app-layout"], [class*="main"], body'', [0]),
      (Css ''button:has-text("OK")'', oks)]\<close>

definition select_page :: "element list" where
  "select_page =
     [\<lparr>tag = ''SELECT'', attrs = [(''name'', ''protocols'')], visible = True, enabled = True,
       editable = False, val = []\<rparr>,
      text_input [(''name'', ''protocol'')] True]"

definition select_tbl :: "(locator \<times> nat list) list" where
  \<open>select_tbl =
     [(Css ''select[name*="protocol" i]'', [0]), (Css ''input[name*="protocol" i]'', [1])]\<close>

definition combobox_tbl :: "(locator \<times> nat list) list" where
  \<open>combobox_tbl =
     [(Css ''input[name*="protocol" i]'', [1]), (Role ''option'' ''/http/i'', [0])]\<close>

definition route_form_page :: "element list" where
  "route_form_page =
     [text_input [] True,
      text_input [(''name'', ''paths''), (''placeholder'', ''Enter a path'')] True]"

definition capital_path_page :: "element list" where
  "capital_path_page = [text_input [(''placeholder'', ''Path'')] True]"

definition empty_attrs_page :: "element list" where
  "empty_attrs_page = [text_input [(''name'', []), (''placeholder'', [])] True]"

definition inputs_env :: "element list \<Rightarrow> nat list \<Rightarrow> env" where
  "inputs_env d js = app_env d [(allInputs, js)] (\<lambda>_. None)"

definition search_and_name_page :: "element list" where
  "search_and_name_page = [text_input [] True, text_input [(''name'', ''name'')] True]"

definition test_id_env :: env where
  "test_id_env =
     app_env search_and_name_page
       [(allInputs, [0, 1]), (TestId ''route-form-name'', [1])] (\<lambda>_. None)"

definition labelled_name_page :: "element list" where
  "labelled_name_page = [text_input [(''name'', ''name'')] True]"

definition fallback_env :: env where
  \<open>fallback_env =
     app_env labelled_name_page
       [(allInputs, [0]),
        (Css ''input[placeholder*="name" i], input[name*="name" i], label:has-text("Name") ~ input'', [0])]
       (\<lambda>_. None)\<close>

definition unbound_env :: env where
  "unbound_env =
     app_env route_form_page [(allInputs, [0, 1]), (TestId ''route-form-name'', [0])] (\<lambda>_. None)"

definition bound_env :: env where
  "bound_env =
     app_env (route_form_page @ [button])
       [(TestId ''route-form-name'', [0]), (TestId ''route-form-service-id'', [2]),
        (Text ''test-service'', [2]), (TestId ''route-form-paths-input-1'', [1]),
        (Role ''button'' ''/save/i'', [2])] (\<lambda>_. None)"

section \<open>Basic facts about the driver model\<close>

lemma resolve_First_cases:
  "resolve env (First l) d = (case resolve env l d of [] \<Rightarrow> [] | j # _ \<Rightarrow> [j])"
  by (cases "resolve env l d") simp_all

lemma emitsD: "emits P f \<Longrightarrow> \<exists>xs. calls (snd (f s)) = calls s @ xs \<and> list_all P xs"
  by (simp add: emits_def)

lemma emits_perform: "P a \<Longrightarrow> emits P (perform env a)"
  by (simp add: emits_def perform_def Let_def)

lemma emits_goto: "P (Goto url) \<Longrightarrow> emits P (goto env url)"
  by (simp add: goto_def emits_perform)

lemma emits_waitForLoadState: "P WaitForLoadState \<Longrightarrow> emits P (waitForLoadState env)"
  by (simp add: waitForLoadState_def emits_perform)

lemma emits_waitForTimeout: "P (WaitForTimeout ms) \<Longrightarrow> emits P (waitForTimeout env ms)"
  by (simp add: emits_def waitForTimeout_def perform_def Let_def)

lemma emits_waitFor: "P (WaitFor l) \<Longrightarrow> emits P (waitFor env l)"
  by (auto simp: emits_def waitFor_def perform_def Let_def split: sum.splits bool.splits option.splits)

lemma emits_click: "(\<And>j. P (Click l j)) \<Longrightarrow> emits P (click env l)"
  by (auto simp: emits_def click_def perform_def Let_def split: sum.splits)

lemma emits_selectOption: "(\<And>j. P (SelectOption l j v)) \<Longrightarrow> emits P (selectOption env l v)"
  by (auto simp: emits_def selectOption_def perform_def Let_def split: sum.splits)

lemma emits_fill: "(\<And>j. P (Fill l j v)) \<Longrightarrow> emits P (fill env l v)"
  by (auto simp: emits_def fill_def split: sum.splits)

lemma emits_ignore: "emits P ignore"
  by (simp add: emits_def ignore_def)

lemma emits_expect: "emits P (expect_toBeVisible env l)"
  by (auto simp: emits_def expect_toBeVisible_def split: sum.splits bool.splits)

lemma emits_when_visible: "emits P f \<Longrightarrow> emits P (when_visible env l f)"
  by (auto simp: emits_def when_visible_def split: sum.splits bool.splits)

lemma emits_try_catch:
  assumes "emits P f" and "emits P h"
  shows "emits P (try_catch f h)"
proof (unfold emits_def, intro allI)
  fix s
  obtain xs where xs: "calls (snd (f s)) = calls s @ xs" "list_all P xs"
    using emitsD [OF assms(1)] by blast
  show "\<exists>zs. calls (snd (try_catch f h s)) = calls s @ zs \<and> list_all P zs"
  proof (cases "f s")
    case (Pair r s')
    show ?thesis
    proof (cases r)
      case None
      with Pair xs show ?thesis by (auto simp: try_catch_def)
    next
      case (Some e)
      obtain ys where ys: "calls (snd (h s')) = calls s' @ ys" "list_all P ys"
        using emitsD [OF assms(2)] by blast
      with Pair Some xs show ?thesis by (auto simp: try_catch_def)
    qed
  qed
qed

lemma emits_steps: "list_all (emits P) fs \<Longrightarrow> emits P (steps fs)"
proof (induction fs)
  case Nil
  show ?case by (simp add: emits_def)
next
  case (Cons f fs)
  then have f: "emits P f" and rest: "emits P (steps fs)" by simp_all
  show ?case
  proof (unfold emits_def, intro allI)
    fix s
    obtain xs where xs: "calls (snd (f s)) = calls s @ xs" "list_all P xs"
      using emitsD [OF f] by blast
    show "\<exists>zs. calls (snd (steps (f # fs) s)) = calls s @ zs \<and> list_all P zs"
    proof (cases "f s")
      case (Pair r s')
      show ?thesis
      proof (cases r)
        case (Some e)
        with Pair xs show ?thesis by auto
      next
        case None
        obtain ys where ys: "calls (snd (steps fs s')) = calls s' @ ys" "list_all P ys"
          using emitsD [OF rest] by blast
        with Pair None xs show ?thesis by auto
      qed
    qed
  qed
qed

lemma emits_fillFormField:
  "(\<And>j. P (Fill (First (Css sel)) j v)) \<Longrightarrow> emits P (fillFormField env sel v)"
  by (simp add: fillFormField_def Let_def emits_when_visible emits_fill)


lemma steps_Cons_None: "f s = (None, s1) \<Longrightarrow> steps (f # fs) s = steps fs s1"
  by simp

lemma steps_Cons_Some: "f s = (Some e, s1) \<Longrightarrow> steps (f # fs) s = (Some e, s1)"
  by simp

section \<open>Run configuration: the claim\<close>

text \<open>
  C3 (as amended). For every value of the CI variable, both copies of the run
  configuration set the retry count to 2 when the CI flag is set and to 0 otherwise, and
  the worker count to 1 when the CI flag is set and leave it to the runner otherwise. The
  per-expectation timeout is 20000 ms in the unnamed copy (part 001) only;
  playwright.config.ts sets none.
\<close>

theorem config_timeout_retries_workers:
  "retries (playwright_config ci) = (if truthy ci then 2 else 0) \<and>
   workers (playwright_config ci) = (if truthy ci then Some 1 else None) \<and>
   expect_timeout (playwright_config ci) = None \<and>
   retries (playwright_config_part_001 ci) = (if truthy ci then 2 else 0) \<and>
   workers (playwright_config_part_001 ci) = (if truthy ci then Some 1 else None) \<and>
   expect_timeout (playwright_config_part_001 ci) = Some 20000"
  by (simp add: playwright_config_def playwright_config_part_001_def)

theorem config_timeout_retries_workers_witness:
  "truthy (Some ''true'') \<and> \<not> truthy None \<and> \<not> truthy (Some []) \<and>
   retries (playwright_config (Some ''true'')) = 2 \<and>
   workers (playwright_config (Some ''true'')) = Some 1 \<and>
   retries (playwright_config None) = 0 \<and>
   workers (playwright_config None) = None \<and>
   expect_timeout (playwright_config None) = None \<and>
   retries (playwright_config_part_001 (Some ''true'')) = 2 \<and>
   workers (playwright_config_part_001 (Some ''true'')) = Some 1 \<and>
   retries (playwright_config_part_001 None) = 0 \<and>
   workers (playwright_config_part_001 None) = None \<and>
   expect_timeout (playwright_config_part_001 None) = Some 20000"
  using config_timeout_retries_workers [of "Some ''true''"]
        config_timeout_retries_workers [of None]
  by (simp add: truthy_def)

text \<open>
  The claim as stated fails for playwright.config.ts: with or without the CI flag it sets
  no per-expectation timeout, so the timeout is not 20000 ms there.
\<close>

theorem config_no_expect_timeout_counterexample:
  "expect_timeout (playwright_config None) \<noteq> Some 20000 \<and>
   expect_timeout (playwright_config (Some ''true'')) \<noteq> Some 20000"
  by (simp add: playwright_config_def)

section \<open>Form-fill utility: the claim\<close>

text \<open>
  C5. For every selector and value: when no element matches, or the first matching element
  is not visible, fillFormField returns without error and leaves the session unchanged;
  when the first matching element is visible and the driver can fill it, the value is
  written into that element and nothing else changes; the only error it can return is the
  driver's own, raised by \<open>fill\<close> on a visible first match.
\<close>

theorem fillFormField_first_match:
  "(resolve env (Css sel) (elems s) = [] \<longrightarrow> fillFormField env sel v s = (None, s)) \<and>
   (\<forall>j js. resolve env (Css sel) (elems s) = j # js \<longrightarrow>
      (\<not> visible (elems s ! j) \<longrightarrow> fillFormField env sel v s = (None, s)) \<and>
      (visible (elems s ! j) \<and> enabled (elems s ! j) \<and> editable (elems s ! j) \<longrightarrow>
         fillFormField env sel v s =
           (None, \<lparr>elems = (elems s)[j := (elems s ! j)\<lparr>val := v\<rparr>],
                   calls = calls s @ [Fill (First (Css sel)) j v]\<rparr>)) \<and>
      (visible (elems s ! j) \<and> \<not> (enabled (elems s ! j) \<and> editable (elems s ! j)) \<longrightarrow>
         fillFormField env sel v s = (Some TimeoutError, s)))"
  by (auto simp: fillFormField_def Let_def when_visible_def isVisible_def fill_def target_def
        resolve_First_cases)


theorem fillFormField_first_match_witness:
  \<open>resolve (app_env [] [] (\<lambda>_. None)) (Css ''input[name*="name" i]'') (elems (on_page [])) = [] \<and>
   fillFormField (app_env [] [] (\<lambda>_. None)) ''input[name*="name" i]'' ''test-service'' (on_page [])
     = (None, on_page []) \<and>
   resolve (app_env [] [(Css ''input[name*="name" i]'', [0])] (\<lambda>_. None)) (Css ''input[name*="name" i]'')
     (elems (on_page [text_input [(''name'', ''name'')] False])) = [0] \<and>
   fillFormField (app_env [] [(Css ''input[name*="name" i]'', [0])] (\<lambda>_. None)) ''input[name*="name" i]''
       ''test-service'' (on_page [text_input [(''name'', ''name'')] False])
     = (None, on_page [text_input [(''name'', ''name'')] False]) \<and>
   fillFormField (app_env [] [(Css ''input[name*="name" i]'', [0])] (\<lambda>_. None)) ''input[name*="name" i]''
       ''test-service'' (on_page [text_input [(''name'', ''name'')] True])
     = (None, \<lparr>elems = [(text_input [(''name'', ''name'')] True)\<lparr>val := ''test-service''\<rparr>],
               calls = [Fill (First (Css ''input[name*="name" i]'')) 0 ''test-service'']\<rparr>) \<and>
   fillFormField (app_env [] [(Css ''input[name*="name" i]'', [0])] (\<lambda>_. None)) ''input[name*="name" i]''
       ''test-service'' (on_page [(text_input [(''name'', ''name'')] True)\<lparr>editable := False\<rparr>])
     = (Some TimeoutError, on_page [(text_input [(''name'', ''name'')] True)\<lparr>editable := False\<rparr>])\<close>
  using
    fillFormField_first_match [of \<open>app_env [] [] (\<lambda>_. None)\<close> \<open>''input[name*="name" i]''\<close>
      \<open>on_page []\<close> \<open>''test-service''\<close>]
    fillFormField_first_match [of \<open>app_env [] [(Css ''input[name*="name" i]'', [0])] (\<lambda>_. None)\<close>
      \<open>''input[name*="name" i]''\<close> \<open>on_page [text_input [(''name'', ''name'')] False]\<close> \<open>''test-service''\<close>]
    fillFormField_first_match [of \<open>app_env [] [(Css ''input[name*="name" i]'', [0])] (\<lambda>_. None)\<close>
      \<open>''input[name*="name" i]''\<close> \<open>on_page [text_input [(''name'', ''name'')] True]\<close> \<open>''test-service''\<close>]
    fillFormField_first_match [of \<open>app_env [] [(Css ''input[name*="name" i]'', [0])] (\<lambda>_. None)\<close>
      \<open>''input[name*="name" i]''\<close>
      \<open>on_page [(text_input [(''name'', ''name'')] True)\<lparr>editable := False\<rparr>]\<close> \<open>''test-service''\<close>]
  by (simp add: app_env_def matching_def on_page_def text_input_def)

section \<open>Service creation: the claim\<close>

text \<open>
  C7. In createService: when the direct navigation to the service-creation view succeeds,
  the workflow goes on and never clicks the new-service control. When the navigation
  raises, the exception is caught and the new-service control of the current view is
  clicked: when the control is there (visible and enabled) the click is dispatched and,
  unless the click itself raises, the workflow goes on with the wait for the load state;
  when the control cannot be resolved, the error the workflow ends with is the click's.
\<close>

theorem createService_navigation_fallback:
  \<open>(fails env (calls s @ [Goto ''/default/services/create'']) = None \<longrightarrow>
      (\<exists>xs. calls (snd (createService env name url s)) =
              calls s @ Goto ''/default/services/create'' # xs \<and>
            (\<forall>j. Click (TestId ''new-gateway-service'') j \<notin> set xs))) \<and>
   (\<forall>e. fails env (calls s @ [Goto ''/default/services/create'']) = Some e \<longrightarrow>
      (\<forall>e'. target env (TestId ''new-gateway-service'') (snd (goto env ''/default/services/create'' s)) = Inl e' \<longrightarrow>
         fst (createService env name url s) = Some e') \<and>
      (\<forall>j. target env (TestId ''new-gateway-service'') (snd (goto env ''/default/services/create'' s)) = Inr j \<and>
           visible (react env (calls s @ [Goto ''/default/services/create'']) ! j) \<and>
           enabled (react env (calls s @ [Goto ''/default/services/create'']) ! j) \<longrightarrow>
         (\<exists>xs. calls (snd (createService env name url s)) =
              calls s @ [Goto ''/default/services/create'', Click (TestId ''new-gateway-service'') j] @ xs \<and>
              (fails env (calls s @ [Goto ''/default/services/create'', Click (TestId ''new-gateway-service'') j]) = None
                 \<longrightarrow> take 1 xs = [WaitForLoadState]))))\<close>
proof -
  let ?url = "''/default/services/create''"
  let ?ctl = "TestId ''new-gateway-service''"
  let ?h = "calls s @ [Goto ?url]"
  let ?s1 = "\<lparr>elems = react env ?h, calls = ?h\<rparr>"
  let ?form = \<open>[fillFormField env ''input[name*="name" i]'' name,
       fillFormField env ''input[name*="url" i]'' url,
       click env (Role ''button'' ''/save/i''),
       waitForLoadState env,
       waitForTimeout env 5000]\<close>
  let ?entry = "try_catch (goto env ?url) (click env ?ctl)"
  have cs: "createService env name url s = steps (?entry # waitForLoadState env # ?form) s"
    by (simp add: createService_def)
  have g: "goto env ?url s = (fails env ?h, ?s1)"
    by (simp add: goto_def perform_def Let_def)
  have form: "emits (\<lambda>a. \<forall>j. a \<noteq> Click ?ctl j) (steps (waitForLoadState env # ?form))"
    by (intro emits_steps)
       (simp add: emits_waitForLoadState emits_fillFormField emits_click emits_waitForTimeout)
  have form': "emits (\<lambda>a. True) (steps ?form)"
    by (intro emits_steps)
       (simp add: emits_waitForLoadState emits_fillFormField emits_click emits_waitForTimeout)
  have ok: "\<exists>xs. calls (snd (createService env name url s)) = calls s @ Goto ?url # xs \<and>
            (\<forall>j. Click ?ctl j \<notin> set xs)"
    if "fails env ?h = None"
  proof -
    from that g have "?entry s = (None, ?s1)" by (simp add: try_catch_def)
    then have "createService env name url s = steps (waitForLoadState env # ?form) ?s1"
      unfolding cs by (rule steps_Cons_None)
    moreover obtain xs where "calls (snd (steps (waitForLoadState env # ?form) ?s1)) = calls ?s1 @ xs"
      and "list_all (\<lambda>a. \<forall>j. a \<noteq> Click ?ctl j) xs"
      using emitsD [OF form, of ?s1] by blast
    ultimately show ?thesis by (auto simp: list_all_iff)
  qed
  have absent: "fst (createService env name url s) = Some e'"
    if "fails env ?h = Some e" and "target env ?ctl (snd (goto env ?url s)) = Inl e'" for e e'
  proof -
    from that g have "?entry s = (Some e', ?s1)" by (simp add: try_catch_def click_def)
    then have "createService env name url s = (Some e', ?s1)"
      unfolding cs by (rule steps_Cons_Some)
    then show ?thesis by simp
  qed
  have present: "\<exists>xs. calls (snd (createService env name url s)) = calls s @ [Goto ?url, Click ?ctl j] @ xs \<and>
              (fails env (calls s @ [Goto ?url, Click ?ctl j]) = None \<longrightarrow> take 1 xs = [WaitForLoadState])"
    if "fails env ?h = Some e" and "target env ?ctl (snd (goto env ?url s)) = Inr j"
      and "visible (react env ?h ! j)" and "enabled (react env ?h ! j)" for e j
  proof -
    let ?h2 = "calls s @ [Goto ?url, Click ?ctl j]"
    let ?s2 = "\<lparr>elems = react env ?h2, calls = ?h2\<rparr>"
    from that g have entry: "?entry s = (fails env ?h2, ?s2)"
      by (simp add: try_catch_def click_def perform_def Let_def)
    show ?thesis
    proof (cases "fails env ?h2")
      case (Some e2)
      with entry have "createService env name url s = (Some e2, ?s2)"
        unfolding cs by (simp only: steps_Cons_Some)
      with Some show ?thesis by simp
    next
      case None
      let ?h3 = "?h2 @ [WaitForLoadState]"
      let ?s3 = "\<lparr>elems = react env ?h3, calls = ?h3\<rparr>"
      from None entry have c1: "createService env name url s = steps (waitForLoadState env # ?form) ?s2"
        unfolding cs by (simp only: steps_Cons_None)
      have w: "waitForLoadState env ?s2 = (fails env ?h3, ?s3)"
        by (simp add: waitForLoadState_def perform_def Let_def)
      show ?thesis
      proof (cases "fails env ?h3")
        case (Some e3)
        with w have "steps (waitForLoadState env # ?form) ?s2 = (Some e3, ?s3)"
          by (simp only: steps_Cons_Some)
        with c1 show ?thesis by simp
      next
        case None
        with w have "steps (waitForLoadState env # ?form) ?s2 = steps ?form ?s3"
          by (simp only: steps_Cons_None)
        moreover obtain xs where "calls (snd (steps ?form ?s3)) = calls ?s3 @ xs"
          using emitsD [OF form', of ?s3] by blast
        ultimately show ?thesis using c1 by simp
      qed
    qed
  qed
  show ?thesis using ok absent present by blast
qed


theorem createService_navigation_fallback_witness:
  "fails (app_env services_page services_tbl (\<lambda>_. None)) (calls (on_page []) @ [Goto ''/default/services/create'']) = None \<and>
   calls (snd (createService (app_env services_page services_tbl (\<lambda>_. None)) ''test-service'' ''http://example.com:80'' (on_page [])))
     = [Goto ''/default/services/create'', WaitForLoadState, Click (Role ''button'' ''/save/i'') 1,
        WaitForLoadState, WaitForTimeout 5000] \<and>
   fails (app_env services_page services_tbl (rejecting ''/default/services/create''))
      (calls (on_page []) @ [Goto ''/default/services/create'']) = Some NavigationError \<and>
   target (app_env services_page services_tbl (rejecting ''/default/services/create'')) (TestId ''new-gateway-service'')
      (snd (goto (app_env services_page services_tbl (rejecting ''/default/services/create'')) ''/default/services/create'' (on_page []))) = Inr 0 \<and>
   createService (app_env services_page services_tbl (rejecting ''/default/services/create'')) ''test-service'' ''http://example.com:80'' (on_page [])
     = (None, \<lparr>elems = services_page, calls = [Goto ''/default/services/create'', Click (TestId ''new-gateway-service'') 0, WaitForLoadState,
        Click (Role ''button'' ''/save/i'') 1, WaitForLoadState, WaitForTimeout 5000]\<rparr>)"
  using createService_navigation_fallback [of "app_env services_page services_tbl (\<lambda>_. None)" "on_page []" "''test-service''" "''http://example.com:80''"]
     createService_navigation_fallback [of "app_env services_page services_tbl (rejecting ''/default/services/create'')" "on_page []" "''test-service''" "''http://example.com:80''"]
  by (simp add: app_env_def matching_def services_page_def services_tbl_def rejecting_def on_page_def button_def
      createService_def try_catch_def goto_def perform_def Let_def click_def target_def waitForLoadState_def
      waitForTimeout_def fillFormField_def when_visible_def isVisible_def)

lemma probe_root_calls:
  "fst (probe_root env s) \<noteq> None \<Longrightarrow>
     calls (snd (probe_root env s)) = calls s @ [Goto ''/''] \<or>
     calls (snd (probe_root env s)) = calls s @ [Goto ''/'', WaitFor main_container]"
  by (auto simp: probe_root_def goto_def waitFor_def perform_def Let_def
           split: option.splits sum.splits bool.splits)

lemma probe_root_fails_iff:
  "fst (probe_root env s) \<noteq> None \<longleftrightarrow>
     fails env (calls s @ [Goto ''/'']) \<noteq> None \<or>
     fst (waitFor env main_container (snd (goto env ''/'' s))) \<noteq> None"
  by (auto simp: probe_root_def goto_def perform_def Let_def split: option.splits prod.splits)

lemma run_test_skipped:
  "fst (probe_root env (new_page s)) \<noteq> None \<Longrightarrow>
     run_test env body s =
       (Skipped ''Kong Manager not reachable at baseURL; skipping UI tests'',
        snd (probe_root env (new_page s)))"
  by (cases "probe_root env (new_page s)") (auto simp: run_test_def beforeEach_def)

section \<open>Unreachable target: the claim\<close>

text \<open>
  C6. When the root navigation raises, or the wait for the main container fails, in the
  before-each hook, the test ends as skipped (not failed) whatever its body is, and the only
  driver calls made are the hook's navigation and wait: the body is not run. When the
  target cannot be reached at all, both scenarios of the suite end as skipped and the run
  exits with code 0.
\<close>

theorem unreachable_target_is_skipped:
  "((fails env (calls s @ [Goto ''/'']) \<noteq> None \<or>
     fst (waitFor env main_container (snd (goto env ''/'' (new_page s)))) \<noteq> None) \<longrightarrow>
      (\<exists>s'. run_test env body s =
              (Skipped ''Kong Manager not reachable at baseURL; skipping UI tests'', s') \<and>
            (calls s' = calls s @ [Goto ''/''] \<or>
             calls s' = calls s @ [Goto ''/'', WaitFor main_container]))) \<and>
   ((\<forall>t. fst (probe_root env t) \<noteq> None) \<longrightarrow>
      suite env s =
        [Skipped ''Kong Manager not reachable at baseURL; skipping UI tests'',
         Skipped ''Kong Manager not reachable at baseURL; skipping UI tests''] \<and>
      exit_code (suite env s) = 0)"
proof (intro conjI impI)
  assume "fails env (calls s @ [Goto ''/'']) \<noteq> None \<or>
     fst (waitFor env main_container (snd (goto env ''/'' (new_page s)))) \<noteq> None"
  then have f: "fst (probe_root env (new_page s)) \<noteq> None"
    using probe_root_fails_iff [of env "new_page s"] by (simp add: new_page_def)
  from probe_root_calls [OF f] run_test_skipped [OF f]
  show "\<exists>s'. run_test env body s =
              (Skipped ''Kong Manager not reachable at baseURL; skipping UI tests'', s') \<and>
            (calls s' = calls s @ [Goto ''/''] \<or>
             calls s' = calls s @ [Goto ''/'', WaitFor main_container])"
    by (auto simp: new_page_def)
next
  assume a: "\<forall>t. fst (probe_root env t) \<noteq> None"
  then have sk: "\<And>body t. run_test env body t =
       (Skipped ''Kong Manager not reachable at baseURL; skipping UI tests'',
        snd (probe_root env (new_page t)))"
    by (simp add: run_test_skipped)
  show su: "suite env s =
        [Skipped ''Kong Manager not reachable at baseURL; skipping UI tests'',
         Skipped ''Kong Manager not reachable at baseURL; skipping UI tests'']"
    by (simp add: suite_def sk)
  show "exit_code (suite env s) = 0"
    by (simp add: su exit_code_def is_failed_def)
qed

theorem unreachable_target_is_skipped_witness:
  "fails (app_env [] [] (rejecting ''/'')) (calls (on_page []) @ [Goto ''/'']) \<noteq> None \<and>
   (\<forall>t. fst (probe_root (app_env [] [] (rejecting ''/'')) t) \<noteq> None) \<and>
   run_test (app_env [] [] (rejecting ''/'')) (scenario_A (app_env [] [] (rejecting ''/''))) (on_page [])
     = (Skipped ''Kong Manager not reachable at baseURL; skipping UI tests'',
        \<lparr>elems = [], calls = [Goto ''/'']\<rparr>) \<and>
   suite (app_env [] [] (rejecting ''/'')) (on_page []) =
        [Skipped ''Kong Manager not reachable at baseURL; skipping UI tests'',
         Skipped ''Kong Manager not reachable at baseURL; skipping UI tests''] \<and>
   exit_code (suite (app_env [] [] (rejecting ''/'')) (on_page [])) = 0"
proof -
  let ?env = "app_env [] [] (rejecting ''/'')"
  have p: "\<And>t. probe_root ?env t = (Some NavigationError, \<lparr>elems = [], calls = calls t @ [Goto ''/'']\<rparr>)"
    by (simp add: probe_root_def goto_def perform_def Let_def app_env_def rejecting_def)
  have h1: "fails ?env (calls (on_page []) @ [Goto ''/'']) \<noteq> None"
    by (simp add: app_env_def rejecting_def)
  have h2: "\<forall>t. fst (probe_root ?env t) \<noteq> None"
    by (simp add: p)
  from unreachable_target_is_skipped [of ?env "on_page []" "scenario_A ?env"] h1 h2
  have "\<exists>s'. run_test ?env (scenario_A ?env) (on_page []) = (Skipped ''Kong Manager not reachable at baseURL; skipping UI tests'', s')"
    and "suite ?env (on_page []) =
        [Skipped ''Kong Manager not reachable at baseURL; skipping UI tests'',
         Skipped ''Kong Manager not reachable at baseURL; skipping UI tests'']"
    and "exit_code (suite ?env (on_page [])) = 0"
    by blast+
  moreover have "snd (run_test ?env (scenario_A ?env) (on_page [])) = \<lparr>elems = [], calls = [Goto ''/'']\<rparr>"
    by (simp add: run_test_def beforeEach_def p new_page_def on_page_def)
  ultimately show ?thesis using h1 h2 by auto
qed

section \<open>License popup: the claim\<close>

lemma waitForTimeout_eq:
  "waitForTimeout env ms s =
     (None, \<lparr>elems = react env (calls s @ [WaitForTimeout ms]), calls = calls s @ [WaitForTimeout ms]\<rparr>)"
  by (simp add: waitForTimeout_def perform_def Let_def)

text \<open>
  What the hook does about the popup after a successful probe of the root page. It looks
  at the first button, in document order, whose text contains OK, and at no other: no
  match, or a first match that is not visible, ends the hook without a click and without
  an error; a visible, enabled first match is clicked; a visible, disabled one makes the
  click time out.
\<close>

lemma beforeEach_popup_cases:
  \<open>fst (probe_root env s) = None \<longrightarrow>
     (let s2 = snd (waitForTimeout env 2000 (snd (probe_root env s)));
          oks = resolve env (Css ''button:has-text("OK")'') (elems s2)
      in (oks = [] \<longrightarrow> beforeEach env s = (Ready, s2)) \<and>
         (\<forall>j js. oks = j # js \<longrightarrow>
            (\<not> visible (elems s2 ! j) \<longrightarrow> beforeEach env s = (Ready, s2)) \<and>
            (visible (elems s2 ! j) \<and> \<not> enabled (elems s2 ! j) \<longrightarrow>
               beforeEach env s = (Raised TimeoutError, s2)) \<and>
            (visible (elems s2 ! j) \<and> enabled (elems s2 ! j) \<longrightarrow>
               (let h = calls s2 @ [Click licensePopup j] in
                beforeEach env s =
                  (case fails env h of
                     Some e \<Rightarrow> (Raised e, \<lparr>elems = react env h, calls = h\<rparr>)
                   | None \<Rightarrow>
                       (Ready, \<lparr>elems = react env (h @ [WaitForTimeout 1000]),
                                calls = h @ [WaitForTimeout 1000]\<rparr>))))))\<close>
proof
  assume ok: "fst (probe_root env s) = None"
  obtain s1 where p: "probe_root env s = (None, s1)"
    using ok by (cases "probe_root env s") auto
  let ?s2 = "\<lparr>elems = react env (calls s1 @ [WaitForTimeout 2000]),
              calls = calls s1 @ [WaitForTimeout 2000]\<rparr>"
  have b: "beforeEach env s =
     (case when_visible env licensePopup (steps [click env licensePopup, waitForTimeout env 1000]) ?s2 of
             (Some e, s3) \<Rightarrow> (Raised e, s3)
           | (None, s3) \<Rightarrow> (Ready, s3))"
    by (simp add: beforeEach_def p waitForTimeout_eq)
  show \<open>let s2 = snd (waitForTimeout env 2000 (snd (probe_root env s)));
          oks = resolve env (Css ''button:has-text("OK")'') (elems s2)
      in (oks = [] \<longrightarrow> beforeEach env s = (Ready, s2)) \<and>
         (\<forall>j js. oks = j # js \<longrightarrow>
            (\<not> visible (elems s2 ! j) \<longrightarrow> beforeEach env s = (Ready, s2)) \<and>
            (visible (elems s2 ! j) \<and> \<not> enabled (elems s2 ! j) \<longrightarrow>
               beforeEach env s = (Raised TimeoutError, s2)) \<and>
            (visible (elems s2 ! j) \<and> enabled (elems s2 ! j) \<longrightarrow>
               (let h = calls s2 @ [Click licensePopup j] in
                beforeEach env s =
                  (case fails env h of
                     Some e \<Rightarrow> (Raised e, \<lparr>elems = react env h, calls = h\<rparr>)
                   | None \<Rightarrow>
                       (Ready, \<lparr>elems = react env (h @ [WaitForTimeout 1000]),
                                calls = h @ [WaitForTimeout 1000]\<rparr>)))))\<close>
    unfolding b
    by (auto simp: p waitForTimeout_eq Let_def when_visible_def isVisible_def licensePopup_def
          resolve_First_cases click_def target_def perform_def split: option.splits)
qed

text \<open>
  C9. The hook is written to dismiss the license popup when it is visible. On the page
  below it does not: a hidden button whose text contains OK comes first in the document,
  the visible OK button of the modal second. The hook tests the first match only, finds
  it hidden, makes no click and ends ready, so the body of the test starts with the modal
  still showing.
\<close>

theorem hook_leaves_visible_modal:
  \<open>resolve (app_env [body_element, hidden_button, button] (root_tbl [1, 2]) (\<lambda>_. None))
      (Css ''button:has-text("OK")'') [body_element, hidden_button, button] = [1, 2] \<and>
   \<not> visible ([body_element, hidden_button, button] ! 1) \<and>
   visible ([body_element, hidden_button, button] ! 2) \<and>
   enabled ([body_element, hidden_button, button] ! 2) \<and>
   beforeEach (app_env [body_element, hidden_button, button] (root_tbl [1, 2]) (\<lambda>_. None)) (on_page []) =
     (Ready, \<lparr>elems = [body_element, hidden_button, button],
              calls = [Goto ''/'', WaitFor main_container, WaitForTimeout 2000]\<rparr>)\<close>
  by (simp add: app_env_def root_tbl_def matching_def on_page_def body_element_def button_def
        hidden_button_def beforeEach_def when_visible_def
        probe_root_def goto_def waitFor_def perform_def Let_def isVisible_def main_container_def
        licensePopup_def waitForTimeout_def)

section \<open>Protocol selection: the claim\<close>

lemma isVisible_First:
  "isVisible env (First l) s =
     Inr (case resolve env l (elems s) of [] \<Rightarrow> False | j # _ \<Rightarrow> visible (elems s ! j))"
  by (cases "resolve env l (elems s)") (simp_all add: isVisible_def)

lemma target_First:
  "target env (First l) s =
     (case resolve env l (elems s) of [] \<Rightarrow> Inl TimeoutError | j # _ \<Rightarrow> Inr j)"
  by (cases "resolve env l (elems s)") (simp_all add: target_def)

lemma try_catch_ignore: "fst (try_catch f ignore s) = None"
  by (simp add: try_catch_def ignore_def split: prod.splits option.splits)

lemma choose_http_visible:
  assumes "resolve env (Css sel) (elems s) = j # js"
  shows "fst (choose_http env (First (Css sel)) s) = None"
proof -
  have t: "evaluate_tagName env (First (Css sel)) s = Inr (tag (elems s ! j))"
    using assms by (simp add: evaluate_tagName_def target_First)
  show ?thesis
  proof (cases "tag (elems s ! j) = ''SELECT''")
    case True
    with t show ?thesis by (simp add: choose_http_def try_catch_ignore)
  next
    case False
    with t show ?thesis
      by (simp add: choose_http_def try_catch_def ignore_def split: prod.splits option.splits)
  qed
qed

lemma protocol_loop_find:
  "protocol_loop env sels s =
     (case find (\<lambda>sel. isVisible env (First (Css sel)) s = Inr True) sels of
        None \<Rightarrow> (None, s)
      | Some sel \<Rightarrow> (None, snd (choose_http env (First (Css sel)) s)))"
proof (induction sels)
  case Nil
  show ?case by simp
next
  case (Cons sel sels)
  show ?case
  proof (cases "isVisible env (First (Css sel)) s = Inr True")
    case True
    then obtain j js where r: "resolve env (Css sel) (elems s) = j # js"
      by (cases "resolve env (Css sel) (elems s)") (auto simp: isVisible_First simp del: resolve.simps)
    from choose_http_visible [OF r] obtain s' where "choose_http env (First (Css sel)) s = (None, s')"
      by (cases "choose_http env (First (Css sel)) s") auto
    with True show ?thesis by (simp del: resolve.simps)
  next
    case False
    then have "isVisible env (First (Css sel)) s = Inr False"
      by (simp add: isVisible_First del: resolve.simps)
    with Cons.IH show ?thesis by (simp del: resolve.simps)
  qed
qed

lemma emits_choose_http:
  "emits (\<lambda>a. action_locator a = Some elem \<or> action_locator a = Some (First (Role ''option'' ''/http/i'')))
     (choose_http env elem)"
proof -
  let ?P = "\<lambda>a. action_locator a = Some elem \<or> action_locator a = Some (First (Role ''option'' ''/http/i''))"
  have a: "emits ?P (try_catch (selectOption env elem ''http'') ignore)"
    by (intro emits_try_catch emits_selectOption emits_ignore) simp
  have b: "emits ?P (steps [try_catch (click env elem) ignore,
                      try_catch (click env (First (Role ''option'' ''/http/i''))) ignore])"
    by (intro emits_steps) (simp add: emits_try_catch emits_click emits_ignore)
  show ?thesis
    unfolding emits_def
  proof
    fix s
    show "\<exists>xs. calls (snd (choose_http env elem s)) = calls s @ xs \<and> list_all ?P xs"
      using emitsD [OF a, of s] emitsD [OF b, of s]
      by (auto simp: choose_http_def split: sum.splits)
  qed
qed

lemma choose_http_first_call:
  assumes "resolve env (Css sel) (elems s) = j # js"
    and "visible (elems s ! j)" and "enabled (elems s ! j)"
  shows "take 1 (drop (length (calls s)) (calls (snd (choose_http env (First (Css sel)) s)))) =
     [if tag (elems s ! j) = ''SELECT'' then SelectOption (First (Css sel)) j ''http''
      else Click (First (Css sel)) j]"
proof -
  have t: "evaluate_tagName env (First (Css sel)) s = Inr (tag (elems s ! j))"
    using assms by (simp add: evaluate_tagName_def target_First)
  have tg: "target env (First (Css sel)) s = Inr j"
    using assms by (simp add: target_First)
  show ?thesis
  proof (cases "tag (elems s ! j) = ''SELECT''")
    case True
    with t tg assms(2,3) show ?thesis
      by (simp add: choose_http_def try_catch_def ignore_def selectOption_def perform_def Let_def
               split: option.splits)
  next
    case False
    let ?h = "calls s @ [Click (First (Css sel)) j]"
    let ?s1 = "\<lparr>elems = react env ?h, calls = ?h\<rparr>"
    have c: "try_catch (click env (First (Css sel))) ignore s = (None, ?s1)"
      using tg assms(2,3)
      by (simp add: try_catch_def ignore_def click_def perform_def Let_def split: option.splits)
    have "emits (\<lambda>_. True) (try_catch (click env (First (Role ''option'' ''/http/i''))) ignore)"
      by (intro emits_try_catch emits_click emits_ignore) simp
    then obtain xs where "calls (snd (try_catch (click env (First (Role ''option'' ''/http/i''))) ignore ?s1)) = calls ?s1 @ xs"
      using emitsD by blast
    moreover have "fst (try_catch (click env (First (Role ''option'' ''/http/i''))) ignore ?s1) = None"
      by (rule try_catch_ignore)
    ultimately show ?thesis using False t c
      by (auto simp: choose_http_def split: prod.splits)
  qed
qed

text \<open>
  C8. Protocol selection probes the five candidate selectors in their fixed order (native
  dropdown, combobox, plain input, then a dropdown and an input inside a protocol
  container). It never raises, whatever the driver does. When no candidate's first
  match is visible nothing happens. Otherwise the first candidate whose first match is
  visible is the only candidate acted upon: every driver call made targets that candidate
  or the http option, and on an enabled element the first call is \<open>selectOption\<close> on a
  SELECT and a click on anything else.
\<close>

theorem protocol_first_visible_candidate:
  \<open>protocolSelectors =
     [''select[name*="protocol" i]'', ''[role="combobox"][aria-label*="protocol" i]'',
      ''input[name*="protocol" i]'', ''div[class*="protocol"] select'',
      ''div[class*="protocol"] input''] \<and>
   fst (protocol_loop env protocolSelectors s) = None \<and>
   (find (\<lambda>sel. isVisible env (First (Css sel)) s = Inr True) protocolSelectors = None \<longrightarrow>
      protocol_loop env protocolSelectors s = (None, s)) \<and>
   (\<forall>sel. find (\<lambda>sel. isVisible env (First (Css sel)) s = Inr True) protocolSelectors = Some sel \<longrightarrow>
      (\<exists>xs. calls (snd (protocol_loop env protocolSelectors s)) = calls s @ xs \<and>
         (\<forall>a\<in>set xs. action_locator a = Some (First (Css sel)) \<or>
                      action_locator a = Some (First (Role ''option'' ''/http/i''))) \<and>
         (\<forall>j js. resolve env (Css sel) (elems s) = j # js \<and> enabled (elems s ! j) \<longrightarrow>
            take 1 xs =
              [if tag (elems s ! j) = ''SELECT'' then SelectOption (First (Css sel)) j ''http''
               else Click (First (Css sel)) j])))\<close>
proof (intro conjI impI allI)
  show \<open>protocolSelectors =
     [''select[name*="protocol" i]'', ''[role="combobox"][aria-label*="protocol" i]'',
      ''input[name*="protocol" i]'', ''div[class*="protocol"] select'',
      ''div[class*="protocol"] input'']\<close>
    by (simp add: protocolSelectors_def)
next
  show "fst (protocol_loop env protocolSelectors s) = None"
    by (simp add: protocol_loop_find split: option.splits)
next
  assume "find (\<lambda>sel. isVisible env (First (Css sel)) s = Inr True) protocolSelectors = None"
  then show "protocol_loop env protocolSelectors s = (None, s)"
    by (simp add: protocol_loop_find)
next
  fix sel
  assume f: "find (\<lambda>sel. isVisible env (First (Css sel)) s = Inr True) protocolSelectors = Some sel"
  then have loop: "protocol_loop env protocolSelectors s =
      (None, snd (choose_http env (First (Css sel)) s))"
    by (simp add: protocol_loop_find)
  from f have vis: "isVisible env (First (Css sel)) s = Inr True"
    by (auto simp: find_Some_iff)
  obtain xs where xs: "calls (snd (choose_http env (First (Css sel)) s)) = calls s @ xs"
    and P: "list_all (\<lambda>a. action_locator a = Some (First (Css sel)) \<or>
                      action_locator a = Some (First (Role ''option'' ''/http/i''))) xs"
    using emitsD [OF emits_choose_http] by blast
  have first: "take 1 xs =
              [if tag (elems s ! j) = ''SELECT'' then SelectOption (First (Css sel)) j ''http''
               else Click (First (Css sel)) j]"
    if "resolve env (Css sel) (elems s) = j # js" and "enabled (elems s ! j)" for j js
  proof -
    from vis that(1) have "visible (elems s ! j)"
      by (simp add: isVisible_First del: resolve.simps)
    from choose_http_first_call [OF that(1) this that(2)] xs show ?thesis by simp
  qed
  show "\<exists>xs. calls (snd (protocol_loop env protocolSelectors s)) = calls s @ xs \<and>
         (\<forall>a\<in>set xs. action_locator a = Some (First (Css sel)) \<or>
                      action_locator a = Some (First (Role ''option'' ''/http/i''))) \<and>
         (\<forall>j js. resolve env (Css sel) (elems s) = j # js \<and> enabled (elems s ! j) \<longrightarrow>
            take 1 xs =
              [if tag (elems s ! j) = ''SELECT'' then SelectOption (First (Css sel)) j ''http''
               else Click (First (Css sel)) j])"
    using xs P first unfolding loop list_all_iff by (intro exI [of _ xs]) auto
qed

theorem protocol_first_visible_candidate_witness:
  \<open>find (\<lambda>sel. isVisible (app_env select_page select_tbl failing_selection) (First (Css sel))
            (on_page select_page) = Inr True) protocolSelectors
     = Some ''select[name*="protocol" i]'' \<and>
   resolve (app_env select_page select_tbl failing_selection) (Css ''select[name*="protocol" i]'')
     (elems (on_page select_page)) = [0] \<and>
   enabled (elems (on_page select_page) ! 0) \<and>
   tag (elems (on_page select_page) ! 0) = ''SELECT'' \<and>
   fst (protocol_loop (app_env select_page select_tbl failing_selection) protocolSelectors
          (on_page select_page)) = None \<and>
   take 1 (calls (snd (protocol_loop (app_env select_page select_tbl failing_selection)
                         protocolSelectors (on_page select_page))))
     = [SelectOption (First (Css ''select[name*="protocol" i]'')) 0 ''http''] \<and>
   protocol_loop (app_env select_page combobox_tbl (\<lambda>_. None)) protocolSelectors (on_page select_page)
     = (None, \<lparr>elems = select_page,
               calls = [Click (First (Css ''input[name*="protocol" i]'')) 1,
                        Click (First (Role ''option'' ''/http/i'')) 0]\<rparr>) \<and>
   find (\<lambda>sel. isVisible (app_env select_page [] (\<lambda>_. None)) (First (Css sel))
            (on_page select_page) = Inr True) protocolSelectors = None \<and>
   protocol_loop (app_env select_page [] (\<lambda>_. None)) protocolSelectors (on_page select_page)
     = (None, on_page select_page)\<close>
proof -
  let ?env = "app_env select_page select_tbl failing_selection"
  let ?quiet = "app_env select_page [] (\<lambda>_. None)"
  let ?s = "on_page select_page"
  let ?sel = \<open>''select[name*="protocol" i]''\<close>
  have f: "find (\<lambda>sel. isVisible ?env (First (Css sel)) ?s = Inr True) protocolSelectors = Some ?sel"
    by code_simp
  have r: "resolve ?env (Css ?sel) (elems ?s) = [0]"
    by code_simp
  have e: "enabled (elems ?s ! 0)" and t: "tag (elems ?s ! 0) = ''SELECT''"
    by code_simp+
  have c: "calls ?s = []"
    by (simp add: on_page_def)
  have f0: "find (\<lambda>sel. isVisible ?quiet (First (Css sel)) ?s = Inr True) protocolSelectors = None"
    by code_simp
  have combo: \<open>protocol_loop (app_env select_page combobox_tbl (\<lambda>_. None)) protocolSelectors ?s
     = (None, \<lparr>elems = select_page,
               calls = [Click (First (Css ''input[name*="protocol" i]'')) 1,
                        Click (First (Role ''option'' ''/http/i'')) 0]\<rparr>)\<close>
    by code_simp
  note inst = protocol_first_visible_candidate [of ?env ?s]
  from inst have never: "fst (protocol_loop ?env protocolSelectors ?s) = None"
    by blast
  from inst f obtain xs where xs: "calls (snd (protocol_loop ?env protocolSelectors ?s)) = calls ?s @ xs"
    and first: "\<forall>j js. resolve ?env (Css ?sel) (elems ?s) = j # js \<and> enabled (elems ?s ! j) \<longrightarrow>
            take 1 xs =
              [if tag (elems ?s ! j) = ''SELECT'' then SelectOption (First (Css ?sel)) j ''http''
               else Click (First (Css ?sel)) j]"
    by blast
  from first r e have "take 1 xs =
              [if tag (elems ?s ! 0) = ''SELECT'' then SelectOption (First (Css ?sel)) 0 ''http''
               else Click (First (Css ?sel)) 0]"
    by blast
  with t xs c have sel: "take 1 (calls (snd (protocol_loop ?env protocolSelectors ?s)))
     = [SelectOption (First (Css ?sel)) 0 ''http'']"
    by simp
  from protocol_first_visible_candidate [of ?quiet ?s] f0
  have none: "protocol_loop ?quiet protocolSelectors ?s = (None, ?s)"
    by blast
  show ?thesis
    using f r e t never sel combo f0 none by (intro conjI)
qed

section \<open>The scan over the text inputs\<close>

lemma is_scanned_input_iff [simp]: "is_scanned_input l \<longleftrightarrow> (\<exists>i. l = Nth allInputs i)"
  by (cases l) (auto simp: is_scanned_input_def)

lemma unlabelled_not_path: "unlabelled e \<Longrightarrow> \<not> mentions_path e"
  by (auto simp: unlabelled_def mentions_path_def js_not_def lower_includes_def toLowerCase_def)

lemma unlabelled_blank [simp]: "unlabelled (blank e) = unlabelled e"
  by (simp add: unlabelled_def blank_def)

lemma mentions_path_blank [simp]: "mentions_path (blank e) = mentions_path e"
  by (simp add: mentions_path_def blank_def)

lemma blank_write: "map blank (set_val j v d) = map blank d"
  by (simp add: set_val_def map_update blank_def list_update_same_conv)
     (metis (no_types, lifting) length_map list_update_beyond list_update_id map_update not_le_imp_less nth_map blank_def)

lemma length_blank_eq: "map blank d1 = map blank d \<Longrightarrow> length d1 = length d"
  by (metis length_map)

lemma resolve_blank: "map blank d1 = map blank d \<Longrightarrow> resolve env l d1 = resolve env l d"
  by (induction env l d rule: resolve.induct) (auto dest: length_blank_eq)

lemma resolve_in_range: "j \<in> set (resolve env l d) \<Longrightarrow> j < length d"
proof (induction env l d arbitrary: j rule: resolve.induct)
  case (1 env l d)
  then show ?case by (auto dest: in_set_takeD)
next
  case (2 env l i d)
  then show ?case by (auto simp: Let_def split: if_splits)
qed auto

lemma nth_blank_eq:
  assumes "map blank d1 = map blank d" and "j < length d"
  shows "blank (d1 ! j) = blank (d ! j)"
proof -
  have "length d1 = length d"
    using assms(1) by (rule length_blank_eq)
  with assms(2) have "blank (d1 ! j) = map blank d1 ! j" and "blank (d ! j) = map blank d ! j"
    by simp_all
  with assms(1) show ?thesis by simp
qed

lemma unlabelled_cong:
  assumes "map blank d1 = map blank d" and "j < length d"
  shows "unlabelled (d1 ! j) = unlabelled (d ! j)"
proof -
  have "unlabelled (blank (d1 ! j)) = unlabelled (blank (d ! j))"
    by (simp only: nth_blank_eq [OF assms])
  then show ?thesis by simp
qed

lemma mentions_path_cong:
  assumes "map blank d1 = map blank d" and "j < length d"
  shows "mentions_path (d1 ! j) = mentions_path (d ! j)"
proof -
  have "mentions_path (blank (d1 ! j)) = mentions_path (blank (d ! j))"
    by (simp only: nth_blank_eq [OF assms])
  then show ?thesis by simp
qed

lemma scan_writes_cong:
  assumes "map blank d1 = map blank d"
  shows "scan_writes d1 nf pf xs = scan_writes d nf pf xs"
proof (induction xs arbitrary: nf pf)
  case Nil
  show ?case by simp
next
  case (Cons a xs)
  have len: "length d1 = length d"
    using assms by (rule length_blank_eq)
  show ?case
  proof (cases a)
    case (Fill l j v)
    show ?thesis
    proof (cases "j < length d")
      case True
      have "unlabelled (d1 ! j) = unlabelled (d ! j)"
        and "mentions_path (d1 ! j) = mentions_path (d ! j)"
        using assms True by (rule unlabelled_cong, rule mentions_path_cong)
      then show ?thesis by (simp add: Fill len Cons.IH)
    next
      case False
      then show ?thesis by (simp add: Fill len)
    qed
  qed simp_all
qed

text \<open>One turn of the loop, in terms of the element the \<open>i\<close>-th input resolves to.\<close>

lemma resolve_Nth_allInputs:
  "resolve env (Nth allInputs i) d =
     (if i < length (resolve env allInputs d) then [resolve env allInputs d ! i] else [])"
  by (simp add: Let_def)

lemma scan_inputs_out_of_range:
  "\<not> i < length (resolve env allInputs (elems s)) \<Longrightarrow>
     scan_inputs env (i # is) (nf, pf) s = scan_inputs env is (nf, pf) s"
  by (simp add: isVisible_or_false_def isVisible_def Let_def del: resolve.simps add: resolve_Nth_allInputs)

lemma scan_inputs_step:
  assumes "i < length (resolve env allInputs (elems s))"
  shows "scan_inputs env (i # is) (nf, pf) s =
     (let j = resolve env allInputs (elems s) ! i; e = elems s ! j in
      if unlabelled e \<and> \<not> nf then
        (if enabled e \<and> editable e
         then scan_inputs env is (True, pf)
                \<lparr>elems = set_val j ''test-route'' (elems s),
                 calls = calls s @ [Fill (Nth allInputs i) j ''test-route'']\<rparr>
         else (Some TimeoutError, (nf, pf), s))
      else if mentions_path e \<and> \<not> pf then
        (if enabled e \<and> editable e
         then scan_inputs env is (nf, True)
                \<lparr>elems = set_val j ''/test-path'' (elems s),
                 calls = calls s @ [Fill (Nth allInputs i) j ''/test-path'']\<rparr>
         else (Some TimeoutError, (nf, pf), s))
      else scan_inputs env is (nf, pf) s)"
proof -
  define j where "j = resolve env allInputs (elems s) ! i"
  define e where "e = elems s ! j"
  have r: "resolve env (Nth allInputs i) (elems s) = [j]"
    using assms by (simp add: resolve_Nth_allInputs j_def del: resolve.simps)
  have v: "isVisible_or_false env (Nth allInputs i) s = visible e"
    by (simp add: isVisible_or_false_def isVisible_def r e_def del: resolve.simps)
  have a: "getAttribute_or_empty env (Nth allInputs i) n s = map_of (attrs e) n" for n
    by (simp add: getAttribute_or_empty_def getAttribute_def target_def r e_def del: resolve.simps)
  have f: "fill env (Nth allInputs i) w s =
      (if visible e \<and> enabled e \<and> editable e
       then (None, \<lparr>elems = set_val j w (elems s), calls = calls s @ [Fill (Nth allInputs i) j w]\<rparr>)
       else (Some TimeoutError, s))" for w
    by (simp add: fill_def target_def r e_def set_val_def del: resolve.simps)
  have c1: "(visible e \<and> \<not> nf \<and> (js_not (map_of (attrs e) ''placeholder'') \<and> js_not (map_of (attrs e) ''name'')))
      = (unlabelled e \<and> \<not> nf)"
    by (auto simp: unlabelled_def)
  have c2: "(visible e \<and> \<not> pf \<and>
      (lower_includes (map_of (attrs e) ''placeholder'') ''path'' \<or>
       lower_includes (map_of (attrs e) ''name'') ''path'')) = (mentions_path e \<and> \<not> pf)"
    by (auto simp: mentions_path_def)
  have lhs: "scan_inputs env (i # is) (nf, pf) s =
     (if unlabelled e \<and> \<not> nf then
           (case fill env (Nth allInputs i) ''test-route'' s of
              (Some err, s') \<Rightarrow> (Some err, (nf, pf), s')
            | (None, s') \<Rightarrow> scan_inputs env is (True, pf) s')
         else if mentions_path e \<and> \<not> pf then
           (case fill env (Nth allInputs i) ''/test-path'' s of
              (Some err, s') \<Rightarrow> (Some err, (nf, pf), s')
            | (None, s') \<Rightarrow> scan_inputs env is (nf, True) s')
         else scan_inputs env is (nf, pf) s)"
    by (simp only: scan_inputs.simps Let_def v a c1 c2)
  have f1: "(case fill env (Nth allInputs i) w s of
              (Some err, s') \<Rightarrow> (Some err, (nf, pf), s')
            | (None, s') \<Rightarrow> k s') =
       (if enabled e \<and> editable e
         then k \<lparr>elems = set_val j w (elems s), calls = calls s @ [Fill (Nth allInputs i) j w]\<rparr>
         else (Some TimeoutError, (nf, pf), s))"
    if "visible e" for w and k :: "session \<Rightarrow> error option \<times> (bool \<times> bool) \<times> session"
    using that by (simp add: f)
  have vu: "unlabelled e \<Longrightarrow> visible e" and vm: "mentions_path e \<Longrightarrow> visible e"
    by (simp_all add: unlabelled_def mentions_path_def)
  show ?thesis
  proof (cases "unlabelled e \<and> \<not> nf")
    case True
    then have "visible e" by (simp add: vu)
    from f1 [OF this] True show ?thesis
      unfolding lhs Let_def j_def [symmetric] e_def [symmetric]
      by (simp only: if_True)
  next
    case False
    note nu = this
    show ?thesis
    proof (cases "mentions_path e \<and> \<not> pf")
      case True
      then have "visible e" by (simp add: vm)
      from f1 [OF this] True nu show ?thesis
        unfolding lhs Let_def j_def [symmetric] e_def [symmetric]
        by (simp only: if_True if_False)
    next
      case False
      with nu show ?thesis
        unfolding lhs Let_def j_def [symmetric] e_def [symmetric]
        by (simp only: if_False)
    qed
  qed
qed

lemma allInputs_in_range:
  "i < length (resolve env allInputs d) \<Longrightarrow> resolve env allInputs d ! i < length d"
  by (rule resolve_in_range [of _ env allInputs]) (rule nth_mem)

lemma scan_inputs_writes:
  "\<exists>xs. calls (snd (snd (scan_inputs env is (nf, pf) s))) = calls s @ xs \<and>
        scan_writes (elems s) nf pf xs \<and>
        map blank (elems (snd (snd (scan_inputs env is (nf, pf) s)))) = map blank (elems s)"
proof (induction "is" arbitrary: nf pf s)
  case Nil
  show ?case by simp
next
  case (Cons i "is")
  show ?case
  proof (cases "i < length (resolve env allInputs (elems s))")
    case False
    show ?thesis
      unfolding scan_inputs_out_of_range [OF False] by (rule Cons.IH)
  next
    case True
    define j where "j = resolve env allInputs (elems s) ! i"
    define e where "e = elems s ! j"
    have j: "j < length (elems s)"
      unfolding j_def using True by (rule allInputs_in_range)
    note step = scan_inputs_step [OF True, of "is" nf pf, unfolded Let_def, folded j_def, folded e_def]
    have filled: "\<exists>xs. calls (snd (snd (scan_inputs env is (nf', pf')
                  \<lparr>elems = set_val j v (elems s), calls = calls s @ [Fill (Nth allInputs i) j v]\<rparr>)))
               = calls s @ Fill (Nth allInputs i) j v # xs \<and>
             scan_writes (elems s) nf' pf' xs \<and>
             map blank (elems (snd (snd (scan_inputs env is (nf', pf')
                  \<lparr>elems = set_val j v (elems s), calls = calls s @ [Fill (Nth allInputs i) j v]\<rparr>))))
               = map blank (elems s)" for v nf' pf'
    proof -
      let ?s1 = "\<lparr>elems = set_val j v (elems s), calls = calls s @ [Fill (Nth allInputs i) j v]\<rparr>"
      from Cons.IH [of nf' pf' ?s1] obtain xs where
        c: "calls (snd (snd (scan_inputs env is (nf', pf') ?s1))) = calls ?s1 @ xs" and
        w: "scan_writes (elems ?s1) nf' pf' xs" and
        b: "map blank (elems (snd (snd (scan_inputs env is (nf', pf') ?s1)))) = map blank (elems ?s1)"
        by blast
      have bl: "map blank (elems ?s1) = map blank (elems s)"
        by (simp add: blank_write)
      from w have "scan_writes (elems s) nf' pf' xs"
        by (simp only: scan_writes_cong [OF bl])
      with c b bl show ?thesis by simp
    qed
    show ?thesis
    proof (cases "unlabelled e \<and> \<not> nf")
      case True
      show ?thesis
      proof (cases "enabled e \<and> editable e")
        case False
        have "scan_inputs env (i # is) (nf, pf) s = (Some TimeoutError, (nf, pf), s)"
          by (subst step) (simp add: True False)
        then show ?thesis by simp
      next
        case fillable: True
        have eq: "scan_inputs env (i # is) (nf, pf) s =
            scan_inputs env is (True, pf)
              \<lparr>elems = set_val j ''test-route'' (elems s),
               calls = calls s @ [Fill (Nth allInputs i) j ''test-route'']\<rparr>"
          by (subst step) (simp add: True fillable)
        from filled [of True pf "''test-route''"] obtain xs where
          "calls (snd (snd (scan_inputs env (i # is) (nf, pf) s)))
             = calls s @ Fill (Nth allInputs i) j ''test-route'' # xs"
          "scan_writes (elems s) True pf xs"
          "map blank (elems (snd (snd (scan_inputs env (i # is) (nf, pf) s)))) = map blank (elems s)"
          unfolding eq by blast
        with True j show ?thesis
          by (intro exI [of _ "Fill (Nth allInputs i) j ''test-route'' # xs"]) (simp add: e_def)
      qed
    next
      case nu: False
      show ?thesis
      proof (cases "mentions_path e \<and> \<not> pf")
        case False
        have "scan_inputs env (i # is) (nf, pf) s = scan_inputs env is (nf, pf) s"
          by (subst step) (simp add: nu False)
        then show ?thesis using Cons.IH [of nf pf s] by simp
      next
        case True
        show ?thesis
        proof (cases "enabled e \<and> editable e")
          case False
          have "scan_inputs env (i # is) (nf, pf) s = (Some TimeoutError, (nf, pf), s)"
            by (subst step) (simp add: True nu False)
          then show ?thesis by simp
        next
          case fillable: True
          have eq: "scan_inputs env (i # is) (nf, pf) s =
              scan_inputs env is (nf, True)
                \<lparr>elems = set_val j ''/test-path'' (elems s),
                 calls = calls s @ [Fill (Nth allInputs i) j ''/test-path'']\<rparr>"
            by (subst step) (simp add: True nu fillable)
          from filled [of nf True "''/test-path''"] obtain xs where
            "calls (snd (snd (scan_inputs env (i # is) (nf, pf) s)))
               = calls s @ Fill (Nth allInputs i) j ''/test-path'' # xs"
            "scan_writes (elems s) nf True xs"
            "map blank (elems (snd (snd (scan_inputs env (i # is) (nf, pf) s)))) = map blank (elems s)"
            unfolding eq by blast
          with True j show ?thesis
            by (intro exI [of _ "Fill (Nth allInputs i) j ''/test-path'' # xs"]) (simp add: e_def)
        qed
      qed
    qed
  qed
qed

lemma scan_writes_each:
  "scan_writes d nf pf xs \<Longrightarrow> a \<in> set xs \<Longrightarrow>
     \<exists>i j. j < length d \<and>
       (a = Fill (Nth allInputs i) j ''test-route'' \<and> unlabelled (d ! j) \<or>
        a = Fill (Nth allInputs i) j ''/test-path'' \<and> mentions_path (d ! j))"
proof (induction xs arbitrary: nf pf)
  case Nil
  then show ?case by simp
next
  case (Cons b xs)
  show ?case
  proof (cases b)
    case (Fill l j v)
    with Cons.prems Cons.IH show ?thesis by auto
  qed (use Cons.prems in simp_all)
qed

lemma scan_writes_name_once:
  "scan_writes d nf pf xs \<Longrightarrow> length (filter (writes ''test-route'') xs) \<le> (if nf then 0 else 1)"
proof (induction xs arbitrary: nf pf)
  case Nil
  then show ?case by simp
next
  case (Cons b xs)
  show ?case
  proof (cases b)
    case (Fill l j v)
    with Cons.prems Cons.IH [of True pf] Cons.IH [of nf True] show ?thesis
      by (auto split: if_splits)
  qed (use Cons.prems in simp_all)
qed

lemma scan_writes_path_once:
  "scan_writes d nf pf xs \<Longrightarrow> length (filter (writes ''/test-path'') xs) \<le> (if pf then 0 else 1)"
proof (induction xs arbitrary: nf pf)
  case Nil
  then show ?case by simp
next
  case (Cons b xs)
  show ?case
  proof (cases b)
    case (Fill l j v)
    with Cons.prems Cons.IH [of True pf] Cons.IH [of nf True] show ?thesis
      by (auto split: if_splits)
  qed (use Cons.prems in simp_all)
qed

section \<open>The scan: name and path are kept apart\<close>

text \<open>
  C10 (as amended). In one run of the scan loop, every write is either the route name into
  a visible input whose name and placeholder are each absent or empty, or the path into a
  visible input whose name or placeholder contains \<open>path\<close> in any letter case; each of the
  two values is written at most once; and the two values never go to the same element.
\<close>

theorem scan_keeps_name_and_path_apart:
  "\<exists>xs. calls (snd (snd (scan_inputs env [0..<count env allInputs s] (False, False) s))) =
          calls s @ xs \<and>
     (\<forall>a\<in>set xs. \<exists>i j. j < length (elems s) \<and>
        (a = Fill (Nth allInputs i) j ''test-route'' \<and> unlabelled (elems s ! j) \<or>
         a = Fill (Nth allInputs i) j ''/test-path'' \<and> mentions_path (elems s ! j))) \<and>
     length (filter (writes ''test-route'') xs) \<le> 1 \<and>
     length (filter (writes ''/test-path'') xs) \<le> 1 \<and>
     (\<forall>l j l' j'. Fill l j ''test-route'' \<in> set xs \<and> Fill l' j' ''/test-path'' \<in> set xs
        \<longrightarrow> j \<noteq> j')"
proof -
  obtain xs where c: "calls (snd (snd (scan_inputs env [0..<count env allInputs s] (False, False) s))) =
          calls s @ xs"
    and w: "scan_writes (elems s) False False xs"
    using scan_inputs_writes [of env "[0..<count env allInputs s]" False False s] by blast
  have each: "\<forall>a\<in>set xs. \<exists>i j. j < length (elems s) \<and>
        (a = Fill (Nth allInputs i) j ''test-route'' \<and> unlabelled (elems s ! j) \<or>
         a = Fill (Nth allInputs i) j ''/test-path'' \<and> mentions_path (elems s ! j))"
    using scan_writes_each [OF w] by blast
  have apart: "j \<noteq> j'"
    if "Fill l j ''test-route'' \<in> set xs" and "Fill l' j' ''/test-path'' \<in> set xs" for l j l' j'
  proof
    assume "j = j'"
    from scan_writes_each [OF w that(1)] have "unlabelled (elems s ! j)" by auto
    moreover from scan_writes_each [OF w that(2)] have "mentions_path (elems s ! j')" by auto
    ultimately show False using \<open>j = j'\<close> unlabelled_not_path by auto
  qed
  from scan_writes_name_once [OF w] scan_writes_path_once [OF w]
  have "length (filter (writes ''test-route'') xs) \<le> 1"
    and "length (filter (writes ''/test-path'') xs) \<le> 1"
    by simp_all
  with c each apart show ?thesis by blast
qed

theorem scan_keeps_name_and_path_apart_witness:
  "scan_inputs (inputs_env route_form_page [0, 1])
       [0..<count (inputs_env route_form_page [0, 1]) allInputs (on_page route_form_page)]
       (False, False) (on_page route_form_page) =
     (None, (True, True),
      \<lparr>elems = [(route_form_page ! 0)\<lparr>val := ''test-route''\<rparr>,
                (route_form_page ! 1)\<lparr>val := ''/test-path''\<rparr>],
       calls = [Fill (Nth allInputs 0) 0 ''test-route'', Fill (Nth allInputs 1) 1 ''/test-path'']\<rparr>) \<and>
   unlabelled (route_form_page ! 0) \<and> mentions_path (route_form_page ! 1) \<and>
   length (filter (writes ''test-route'')
     (calls (snd (snd (scan_inputs (inputs_env route_form_page [0, 1])
       [0..<count (inputs_env route_form_page [0, 1]) allInputs (on_page route_form_page)]
       (False, False) (on_page route_form_page)))))) \<le> 1"
proof -
  let ?env = "inputs_env route_form_page [0, 1]"
  let ?s = "on_page route_form_page"
  have run: "scan_inputs ?env [0..<count ?env allInputs ?s] (False, False) ?s =
     (None, (True, True),
      \<lparr>elems = [(route_form_page ! 0)\<lparr>val := ''test-route''\<rparr>,
                (route_form_page ! 1)\<lparr>val := ''/test-path''\<rparr>],
       calls = [Fill (Nth allInputs 0) 0 ''test-route'', Fill (Nth allInputs 1) 1 ''/test-path'']\<rparr>)"
    by code_simp
  have u: "unlabelled (route_form_page ! 0)" and m: "mentions_path (route_form_page ! 1)"
    by code_simp+
  have c: "calls ?s = []"
    by (simp add: on_page_def)
  from scan_keeps_name_and_path_apart [of ?env ?s] obtain xs where
    "calls (snd (snd (scan_inputs ?env [0..<count ?env allInputs ?s] (False, False) ?s))) = calls ?s @ xs"
    and "length (filter (writes ''test-route'') xs) \<le> 1"
    by blast
  with c have "length (filter (writes ''test-route'')
     (calls (snd (snd (scan_inputs ?env [0..<count ?env allInputs ?s] (False, False) ?s))))) \<le> 1"
    by simp
  with run u m show ?thesis by (intro conjI)
qed

text \<open>
  The claim as stated fails in its two conditions: an input whose placeholder is \<open>Path\<close>
  receives the path value though neither attribute contains \<open>path\<close>, and an input whose
  name and placeholder attributes are present but empty receives the name value.
\<close>

theorem scan_attribute_conditions_counterexample:
  "map_of (attrs (capital_path_page ! 0)) ''placeholder'' = Some ''Path'' \<and>
   map_of (attrs (capital_path_page ! 0)) ''name'' = None \<and>
   \<not> js_includes ''Path'' ''path'' \<and>
   calls (snd (snd (scan_inputs (inputs_env capital_path_page [0])
       [0..<count (inputs_env capital_path_page [0]) allInputs (on_page capital_path_page)]
       (False, False) (on_page capital_path_page)))) =
     [Fill (Nth allInputs 0) 0 ''/test-path''] \<and>
   map_of (attrs (empty_attrs_page ! 0)) ''placeholder'' = Some [] \<and>
   map_of (attrs (empty_attrs_page ! 0)) ''name'' = Some [] \<and>
   calls (snd (snd (scan_inputs (inputs_env empty_attrs_page [0])
       [0..<count (inputs_env empty_attrs_page [0]) allInputs (on_page empty_attrs_page)]
       (False, False) (on_page empty_attrs_page)))) =
     [Fill (Nth allInputs 0) 0 ''test-route'']"
  by code_simp

section \<open>The scan: which inputs are taken\<close>

lemma find_cong_set: "(\<And>x. x \<in> set xs \<Longrightarrow> P x = Q x) \<Longrightarrow> find P xs = find Q xs"
  by (induction xs) auto

lemma set_val_nth:
  "j' < length d \<Longrightarrow> set_val j v d ! j' = (if j' = j then (d ! j)\<lparr>val := v\<rparr> else d ! j')"
  by (simp add: set_val_def nth_list_update)

lemma length_set_val [simp]: "length (set_val j v d) = length d"
  by (simp add: set_val_def)

lemma scan_inputs_first:
  assumes "\<forall>k\<in>set ks. k < length R"
    and "R = resolve env allInputs (elems s)"
    and "scan_inputs env ks (nf, pf) s = (None, (nf', pf'), s')"
  shows "nf' = (nf \<or> find (\<lambda>j. unlabelled (elems s ! j)) (map ((!) R) ks) \<noteq> None) \<and>
         pf' = (pf \<or> find (\<lambda>j. mentions_path (elems s ! j)) (map ((!) R) ks) \<noteq> None) \<and>
         length (elems s') = length (elems s) \<and>
         (\<forall>j<length (elems s). elems s' ! j =
            (if \<not> nf \<and> find (\<lambda>j. unlabelled (elems s ! j)) (map ((!) R) ks) = Some j
             then (elems s ! j)\<lparr>val := ''test-route''\<rparr>
             else if \<not> pf \<and> find (\<lambda>j. mentions_path (elems s ! j)) (map ((!) R) ks) = Some j
             then (elems s ! j)\<lparr>val := ''/test-path''\<rparr>
             else elems s ! j))"
  using assms
proof (induction ks arbitrary: nf pf s)
  case Nil
  then show ?case by simp
next
  case (Cons k ks)
  let ?d = "elems s"
  let ?js = "map ((!) R) ks"
  let ?U = "\<lambda>j. unlabelled (?d ! j)"
  let ?M = "\<lambda>j. mentions_path (?d ! j)"
  have R: "R = resolve env allInputs ?d" by (rule Cons.prems(2))
  have k: "k < length (resolve env allInputs ?d)" and ks: "\<forall>k\<in>set ks. k < length R"
    using Cons.prems(1) R by simp_all
  define j where "j = R ! k"
  define e where "e = ?d ! j"
  have j: "j < length ?d"
    unfolding j_def R using k by (rule allInputs_in_range)
  have js: "\<And>x. x \<in> set ?js \<Longrightarrow> x < length ?d"
    using ks R resolve_in_range [of _ env allInputs ?d] by auto
  note step = scan_inputs_step [OF k, of ks nf pf, unfolded Let_def, folded R, folded j_def, folded e_def]
  have after: "scan_inputs env ks (nf'', pf'')
        \<lparr>elems = set_val j v ?d, calls = calls s @ [Fill (Nth allInputs k) j v]\<rparr> = (None, (nf', pf'), s') \<Longrightarrow>
      nf' = (nf'' \<or> find ?U ?js \<noteq> None) \<and>
      pf' = (pf'' \<or> find ?M ?js \<noteq> None) \<and>
      length (elems s') = length ?d \<and>
      (\<forall>x<length ?d. elems s' ! x =
            (if \<not> nf'' \<and> find ?U ?js = Some x
             then (set_val j v ?d ! x)\<lparr>val := ''test-route''\<rparr>
             else if \<not> pf'' \<and> find ?M ?js = Some x
             then (set_val j v ?d ! x)\<lparr>val := ''/test-path''\<rparr>
             else set_val j v ?d ! x))" for nf'' pf'' v
  proof -
    let ?s1 = "\<lparr>elems = set_val j v ?d, calls = calls s @ [Fill (Nth allInputs k) j v]\<rparr>"
    assume run: "scan_inputs env ks (nf'', pf'') ?s1 = (None, (nf', pf'), s')"
    have bl: "map blank (elems ?s1) = map blank ?d"
      by (simp add: blank_write)
    have R1: "R = resolve env allInputs (elems ?s1)"
      unfolding R by (rule resolve_blank [OF bl, symmetric])
    have U: "find (\<lambda>x. unlabelled (elems ?s1 ! x)) ?js = find ?U ?js"
      by (rule find_cong_set) (rule unlabelled_cong [OF bl js])
    have M: "find (\<lambda>x. mentions_path (elems ?s1 ! x)) ?js = find ?M ?js"
      by (rule find_cong_set) (rule mentions_path_cong [OF bl js])
    from Cons.IH [OF ks R1 run] show ?thesis
      unfolding U M by simp
  qed
  show ?case
  proof (cases "unlabelled e \<and> \<not> nf")
    case True
    then have nM: "\<not> mentions_path e" by (simp add: unlabelled_not_path)
    have fillable: "enabled e \<and> editable e"
    proof (rule ccontr)
      assume no: "\<not> (enabled e \<and> editable e)"
      have "scan_inputs env (k # ks) (nf, pf) s = (Some TimeoutError, (nf, pf), s)"
        by (subst step) (simp add: True no)
      with Cons.prems(3) show False by simp
    qed
    have "scan_inputs env (k # ks) (nf, pf) s =
        scan_inputs env ks (True, pf)
          \<lparr>elems = set_val j ''test-route'' ?d, calls = calls s @ [Fill (Nth allInputs k) j ''test-route'']\<rparr>"
      by (subst step) (simp add: True fillable)
    with Cons.prems(3) have
      "scan_inputs env ks (True, pf)
          \<lparr>elems = set_val j ''test-route'' ?d, calls = calls s @ [Fill (Nth allInputs k) j ''test-route'']\<rparr>
        = (None, (nf', pf'), s')"
      by simp
    from after [OF this] have
      a1: "nf'" and a2: "pf' = (pf \<or> find ?M ?js \<noteq> None)" and a3: "length (elems s') = length ?d"
      and a4: "\<forall>x<length ?d. elems s' ! x =
            (if \<not> pf \<and> find ?M ?js = Some x
             then (set_val j ''test-route'' ?d ! x)\<lparr>val := ''/test-path''\<rparr>
             else set_val j ''test-route'' ?d ! x)"
      by simp_all
    have fU: "find ?U (map ((!) R) (k # ks)) = Some j"
      using True by (simp add: j_def e_def)
    have fM: "find ?M (map ((!) R) (k # ks)) = find ?M ?js"
      using nM by (simp add: j_def e_def)
    have notj: "find ?M ?js \<noteq> Some j"
      using nM by (auto simp: find_Some_iff e_def)
    show ?thesis
      unfolding fU fM using True a1 a2 a3 a4 notj
      by (auto simp: set_val_nth e_def)
  next
    case nu: False
    show ?thesis
    proof (cases "mentions_path e \<and> \<not> pf")
      case True
      then have nU: "\<not> unlabelled e" using unlabelled_not_path by blast
      have fillable: "enabled e \<and> editable e"
      proof (rule ccontr)
        assume no: "\<not> (enabled e \<and> editable e)"
        have "scan_inputs env (k # ks) (nf, pf) s = (Some TimeoutError, (nf, pf), s)"
          by (subst step) (simp add: True nu no)
        with Cons.prems(3) show False by simp
      qed
      have "scan_inputs env (k # ks) (nf, pf) s =
          scan_inputs env ks (nf, True)
            \<lparr>elems = set_val j ''/test-path'' ?d, calls = calls s @ [Fill (Nth allInputs k) j ''/test-path'']\<rparr>"
        by (subst step) (simp add: True nu fillable)
      with Cons.prems(3) have
        "scan_inputs env ks (nf, True)
            \<lparr>elems = set_val j ''/test-path'' ?d, calls = calls s @ [Fill (Nth allInputs k) j ''/test-path'']\<rparr>
          = (None, (nf', pf'), s')"
        by simp
      from after [OF this] have
        a1: "pf'" and a2: "nf' = (nf \<or> find ?U ?js \<noteq> None)" and a3: "length (elems s') = length ?d"
        and a4: "\<forall>x<length ?d. elems s' ! x =
              (if \<not> nf \<and> find ?U ?js = Some x
               then (set_val j ''/test-path'' ?d ! x)\<lparr>val := ''test-route''\<rparr>
               else set_val j ''/test-path'' ?d ! x)"
        by simp_all
      have fM: "find ?M (map ((!) R) (k # ks)) = Some j"
        using True by (simp add: j_def e_def)
      have fU: "find ?U (map ((!) R) (k # ks)) = find ?U ?js"
        using nU by (simp add: j_def e_def)
      have notj: "find ?U ?js \<noteq> Some j"
        using nU by (auto simp: find_Some_iff e_def)
      show ?thesis
        unfolding fU fM using True a1 a2 a3 a4 notj
        by (auto simp: set_val_nth e_def)
    next
      case False
      have "scan_inputs env (k # ks) (nf, pf) s = scan_inputs env ks (nf, pf) s"
        by (subst step) (simp add: nu False)
      with Cons.prems(3) have run: "scan_inputs env ks (nf, pf) s = (None, (nf', pf'), s')"
        by simp
      note ih = Cons.IH [OF ks R run]
      have fU: "\<not> nf \<Longrightarrow> find ?U (map ((!) R) (k # ks)) = find ?U ?js"
        using nu by (simp add: j_def e_def)
      have fM: "\<not> pf \<Longrightarrow> find ?M (map ((!) R) (k # ks)) = find ?M ?js"
        using False by (simp add: j_def e_def)
      show ?thesis
      proof (cases nf; cases pf)
        assume "nf" "pf" with ih show ?thesis by simp
      next
        assume "nf" "\<not> pf" with ih fM show ?thesis by simp
      next
        assume "\<not> nf" "pf" with ih fU show ?thesis by simp
      next
        assume "\<not> nf" "\<not> pf" with ih fU fM show ?thesis by simp
      qed
    qed
  qed
qed

lemma scan_inputs_first_input:
  assumes "scan_inputs env [0..<count env allInputs s] (False, False) s = (None, (nf, pf), s')"
  shows "nf = (first_input unlabelled env s \<noteq> None) \<and>
         pf = (first_input mentions_path env s \<noteq> None) \<and>
         length (elems s') = length (elems s) \<and>
         (\<forall>j<length (elems s). elems s' ! j =
            (if first_input unlabelled env s = Some j then (elems s ! j)\<lparr>val := ''test-route''\<rparr>
             else if first_input mentions_path env s = Some j then (elems s ! j)\<lparr>val := ''/test-path''\<rparr>
             else elems s ! j))"
proof -
  let ?R = "resolve env allInputs (elems s)"
  have m: "map ((!) ?R) [0..<count env allInputs s] = ?R"
    unfolding count_def by (rule map_nth)
  have "\<forall>k\<in>set [0..<count env allInputs s]. k < length ?R"
    by (simp add: count_def)
  from scan_inputs_first [OF this refl assms] show ?thesis
    unfolding m first_input_def by simp
qed

section \<open>Driver calls of the route scenario\<close>

lemma emits_mono: "emits P f \<Longrightarrow> (\<And>a. P a \<Longrightarrow> Q a) \<Longrightarrow> emits Q f"
  unfolding emits_def list_all_iff by blast

lemma steps_append:
  "steps (fs @ gs) s =
     (case steps fs s of (Some e, s') \<Rightarrow> (Some e, s') | (None, s') \<Rightarrow> steps gs s')"
  by (induction fs arbitrary: s) (auto split: prod.splits option.splits)

lemma click_None:
  "click env l s = (None, s') \<Longrightarrow> \<exists>j. calls s' = calls s @ [Click l j]"
  by (auto simp: click_def perform_def Let_def split: sum.splits if_splits)

lemma fill_unresolved:
  "\<forall>d. query env (TestId t) d = [] \<Longrightarrow> fill env (TestId t) v s = (Some TimeoutError, s)"
  by (simp add: fill_def target_def)

lemma click_unresolved:
  "\<forall>d. query env (TestId t) d = [] \<Longrightarrow> click env (TestId t) s = (Some TimeoutError, s)"
  by (simp add: click_def target_def)

lemma emits_scan_inputs:
  "\<exists>xs. calls (snd (snd (scan_inputs env is (nf, pf) s))) = calls s @ xs \<and>
        list_all (\<lambda>a. \<exists>i j v. a = Fill (Nth allInputs i) j v) xs"
proof -
  obtain xs where c: "calls (snd (snd (scan_inputs env is (nf, pf) s))) = calls s @ xs"
    and w: "scan_writes (elems s) nf pf xs"
    using scan_inputs_writes [of env "is" nf pf s] by blast
  have "list_all (\<lambda>a. \<exists>i j v. a = Fill (Nth allInputs i) j v) xs"
    unfolding list_all_iff using scan_writes_each [OF w] by blast
  with c show ?thesis by blast
qed

lemma emits_fallback:
  "emits (\<lambda>a. \<not> filled \<and> (\<exists>j. a = Fill l j v))
     (if \<not> filled then try_catch (when_visible env l (fill env l v)) ignore else ignore)"
  by (cases filled)
     (auto intro!: emits_ignore emits_try_catch emits_when_visible emits_fill)

lemma fill_route_fields_calls:
  "\<exists>xs. calls (snd (fill_route_fields env s)) = calls s @ xs \<and>
        list_all (fills_route_field env s) xs"
proof -
  let ?scan = "scan_inputs env [0..<count env allInputs s] (False, False) s"
  obtain r nf pf s1 where scan: "?scan = (r, (nf, pf), s1)"
    by (cases ?scan) auto
  obtain xs where xs: "calls s1 = calls s @ xs"
    and P: "list_all (\<lambda>a. \<exists>i j v. a = Fill (Nth allInputs i) j v) xs"
    using emits_scan_inputs [of env "[0..<count env allInputs s]" False False s] scan by auto
  from P have P': "list_all (fills_route_field env s) xs"
    by (rule list.pred_mono_strong) auto
  show ?thesis
  proof (cases r)
    case (Some e)
    with scan have "fill_route_fields env s = (Some e, s1)"
      by (simp add: fill_route_fields_def)
    with xs P' show ?thesis by auto
  next
    case None
    let ?fb = "[if \<not> nf
            then try_catch (when_visible env nameInput (fill env nameInput ''test-route'')) ignore
            else ignore,
            if \<not> pf
            then try_catch (when_visible env pathInput (fill env pathInput ''/test-path'')) ignore
            else ignore]"
    from None scan have f: "fill_route_fields env s = steps ?fb s1"
      by (simp add: fill_route_fields_def)
    from None scan have flags: "nf = (first_input unlabelled env s \<noteq> None)"
      "pf = (first_input mentions_path env s \<noteq> None)"
      using scan_inputs_first_input [of env s nf pf s1] by simp_all
    have "emits (fills_route_field env s) (steps ?fb)"
    proof (intro emits_steps, simp only: list.pred_inject, intro conjI TrueI)
      show "emits (fills_route_field env s) (if \<not> nf
            then try_catch (when_visible env nameInput (fill env nameInput ''test-route'')) ignore
            else ignore)"
        by (rule emits_mono [OF emits_fallback]) (use flags in auto)
      show "emits (fills_route_field env s) (if \<not> pf
            then try_catch (when_visible env pathInput (fill env pathInput ''/test-path'')) ignore
            else ignore)"
        by (rule emits_mono [OF emits_fallback]) (use flags in auto)
    qed
    then obtain ys where ys: "calls (snd (steps ?fb s1)) = calls s1 @ ys"
      and Q: "list_all (fills_route_field env s) ys"
      using emitsD by blast
    from xs ys f have "calls (snd (fill_route_fields env s)) = calls s @ (xs @ ys)"
      by simp
    moreover from P' Q have "list_all (fills_route_field env s) (xs @ ys)"
      by simp
    ultimately show ?thesis by blast
  qed
qed

lemma fills_route_field_no_test_id: "fills_route_field env s a \<Longrightarrow> no_test_id a"
proof (cases a)
  case (Fill l j v)
  assume "fills_route_field env s a"
  with Fill consider (scan) i where "l = Nth allInputs i" | (name) "l = nameInput" | (path) "l = pathInput"
    by (auto split: locator.splits)
  then show ?thesis
    by cases (simp_all add: Fill no_test_id_def allInputs_def nameInput_def pathInput_def)
qed simp_all

lemma emits_fill_route_fields: "emits no_test_id (fill_route_fields env)"
  unfolding emits_def
proof (intro allI)
  fix s
  from fill_route_fields_calls [of env s] obtain xs where
    c: "calls (snd (fill_route_fields env s)) = calls s @ xs" and
    P: "list_all (fills_route_field env s) xs"
    by blast
  from P have "list_all no_test_id xs"
    by (rule list.pred_mono_strong) (rule fills_route_field_no_test_id)
  with c show "\<exists>xs. calls (snd (fill_route_fields env s)) = calls s @ xs \<and> list_all no_test_id xs"
    by blast
qed

lemma emits_protocol_loop: "emits no_test_id (protocol_loop env sels)"
  unfolding emits_def
proof (intro allI)
  fix s
  show "\<exists>xs. calls (snd (protocol_loop env sels s)) = calls s @ xs \<and> list_all no_test_id xs"
  proof (cases "find (\<lambda>sel. isVisible env (First (Css sel)) s = Inr True) sels")
    case None
    then show ?thesis by (simp add: protocol_loop_find)
  next
    case (Some sel)
    have "emits no_test_id (choose_http env (First (Css sel)))"
      by (rule emits_mono [OF emits_choose_http]) (auto simp: no_test_id_def)
    from emitsD [OF this, of s] Some show ?thesis
      by (simp add: protocol_loop_find)
  qed
qed

lemma emits_submit_route: "emits no_test_id (submit_route env)"
  unfolding submit_route_def Let_def
  by (intro emits_try_catch emits_when_visible emits_steps emits_ignore)
     (simp_all add: emits_click emits_waitForTimeout emits_waitForLoadState no_test_id_def)

lemma emits_open_route_form: "emits no_test_id (open_route_form env)"
  unfolding emits_def
proof (intro allI)
  fix s
  let ?link = "First (Role ''link'' ''/routes/i'')"
  have nav: "emits no_test_id (steps [click env ?link, waitForLoadState env])"
    by (intro emits_steps) (simp add: emits_click emits_waitForLoadState no_test_id_def)
  have direct: "emits no_test_id (steps [goto env ''/default/routes/create'', waitForLoadState env])"
    by (intro emits_steps) (simp add: emits_goto emits_waitForLoadState no_test_id_def)
  have button: "emits no_test_id
      (try_catch
         (when_visible env (First (Role ''button'' ''/new|create/i''))
            (steps [click env (First (Role ''button'' ''/new|create/i'')), waitForLoadState env]))
         (steps [goto env ''/default/routes/create'', waitForLoadState env]))"
    by (intro emits_try_catch emits_when_visible emits_steps direct)
       (simp add: emits_click emits_waitForLoadState no_test_id_def)
  obtain b s1 where r: "routesNav env s = (b, s1)"
    by (cases "routesNav env s") auto
  have "\<exists>xs. calls s1 = calls s @ xs \<and> list_all no_test_id xs"
    using r emitsD [OF nav, of s]
    by (auto simp: routesNav_def Let_def split: sum.splits bool.splits prod.splits option.splits)
  then obtain xs where xs: "calls s1 = calls s @ xs" "list_all no_test_id xs" by blast
  show "\<exists>zs. calls (snd (open_route_form env s)) = calls s @ zs \<and> list_all no_test_id zs"
  proof (cases b)
    case True
    from emitsD [OF button, of s1] obtain ys where
      "calls (snd (open_route_form env s)) = calls s1 @ ys" "list_all no_test_id ys"
      using r True by (auto simp: open_route_form_def Let_def)
    with xs show ?thesis by auto
  next
    case False
    from emitsD [OF direct, of s1] obtain ys where
      "calls (snd (open_route_form env s)) = calls s1 @ ys" "list_all no_test_id ys"
      using r False by (auto simp: open_route_form_def Let_def)
    with xs show ?thesis by auto
  qed
qed

lemma scenario_B_no_test_id: "emits no_test_id (scenario_B env)"
  unfolding scenario_B_def
  by (intro emits_steps)
     (simp add: emits_goto emits_waitForLoadState emits_waitFor emits_click emits_waitForTimeout
        emits_open_route_form emits_fill_route_fields emits_protocol_loop emits_submit_route
        emits_expect no_test_id_def)

section \<open>Binding the route to the service: the claim\<close>

text \<open>
  C2 (as amended). In createRoute the service is bound without any test for the picker: a
  run that completes has clicked the service picker and then the text \<open>test-service\<close>, one
  right after the other; when the picker cannot be resolved the click raises, so the
  workflow fails, and no click at all has been made. The heuristic variant of the
  scenario never addresses an element through a test identifier, the picker included.
\<close>

theorem createRoute_binds_unconditionally:
  "(fst (createRoute env name path s) = None \<longrightarrow>
      (\<exists>xs j k ys. calls (snd (createRoute env name path s)) =
         calls s @ xs @ [Click (TestId ''route-form-service-id'') j, Click (Text ''test-service'') k] @ ys)) \<and>
   ((\<forall>d. query env (TestId ''route-form-service-id'') d = []) \<longrightarrow>
      fst (createRoute env name path s) \<noteq> None \<and>
      (\<exists>xs. calls (snd (createRoute env name path s)) = calls s @ xs \<and>
            list_all (\<lambda>a. \<not> is_click a) xs)) \<and>
   (\<exists>xs. calls (snd (scenario_B env s)) = calls s @ xs \<and> list_all no_test_id xs)"
proof (intro conjI impI)
  let ?pre = "[goto env ''/default/routes/create'', waitForLoadState env, waitForTimeout env 2000,
       fill env (TestId ''route-form-name'') name]"
  let ?P = "click env (TestId ''route-form-service-id'')"
  let ?T = "click env (Text ''test-service'')"
  let ?post = "[fill env (TestId ''route-form-paths-input-1'') path, click env (Role ''button'' ''/save/i'')]"
  have cr: "createRoute env name path s = steps (?pre @ [?P, ?T] @ ?post) s"
    by (simp add: createRoute_def)
  obtain r4 s4 where pre: "steps ?pre s = (r4, s4)"
    by (cases "steps ?pre s") auto
  have "emits (\<lambda>a. \<not> is_click a) (steps ?pre)"
    by (intro emits_steps) (simp add: emits_goto emits_waitForLoadState emits_waitForTimeout emits_fill)
  from emitsD [OF this, of s] pre obtain xs where xs: "calls s4 = calls s @ xs"
    and nc: "list_all (\<lambda>a. \<not> is_click a) xs"
    by auto
  have "emits (\<lambda>a. True) (steps ?post)"
    by (intro emits_steps) (simp add: emits_fill emits_click)
  then have post: "\<exists>ys. calls (snd (steps ?post t)) = calls t @ ys" for t
    using emitsD by blast
  {
    assume ok: "fst (createRoute env name path s) = None"
    have r4: "r4 = None"
      using ok pre unfolding cr steps_append by (cases r4) auto
    obtain r5 s5 where p: "?P s4 = (r5, s5)" by (cases "?P s4") auto
    have r5: "r5 = None"
      using ok pre r4 p unfolding cr steps_append by (cases r5) auto
    obtain r6 s6 where q: "?T s5 = (r6, s6)" by (cases "?T s5") auto
    have r6: "r6 = None"
      using ok pre r4 p r5 q unfolding cr steps_append by (cases r6) auto
    from p r5 obtain j where j: "calls s5 = calls s4 @ [Click (TestId ''route-form-service-id'') j]"
      using click_None by blast
    from q r6 obtain k where k: "calls s6 = calls s5 @ [Click (Text ''test-service'') k]"
      using click_None by blast
    have "createRoute env name path s = steps ?post s6"
      using pre r4 p r5 q r6 unfolding cr steps_append by simp
    with post [of s6] obtain ys where "calls (snd (createRoute env name path s)) = calls s6 @ ys"
      by auto
    with xs j k show "\<exists>xs j k ys. calls (snd (createRoute env name path s)) =
         calls s @ xs @ [Click (TestId ''route-form-service-id'') j, Click (Text ''test-service'') k] @ ys"
      by auto
  }
  {
    assume absent: "\<forall>d. query env (TestId ''route-form-service-id'') d = []"
    have res: "createRoute env name path s = (if r4 = None then (Some TimeoutError, s4) else (r4, s4))"
      using pre click_unresolved [OF absent] unfolding cr steps_append by (cases r4) auto
    then show "fst (createRoute env name path s) \<noteq> None"
      by (cases r4) auto
    from res xs nc show "\<exists>xs. calls (snd (createRoute env name path s)) = calls s @ xs \<and>
            list_all (\<lambda>a. \<not> is_click a) xs"
      by (cases r4) auto
  }
  show "\<exists>xs. calls (snd (scenario_B env s)) = calls s @ xs \<and> list_all no_test_id xs"
    using emitsD [OF scenario_B_no_test_id] .
qed

theorem createRoute_binds_unconditionally_witness:
  "createRoute bound_env ''test-route'' ''/test-path'' (on_page []) =
     (None,
      \<lparr>elems = route_form_page @ [button],
       calls = [Goto ''/default/routes/create'', WaitForLoadState, WaitForTimeout 2000,
                Fill (TestId ''route-form-name'') 0 ''test-route'',
                Click (TestId ''route-form-service-id'') 2, Click (Text ''test-service'') 2,
                Fill (TestId ''route-form-paths-input-1'') 1 ''/test-path'',
                Click (Role ''button'' ''/save/i'') 2]\<rparr>) \<and>
   (\<exists>xs j k ys. calls (snd (createRoute bound_env ''test-route'' ''/test-path'' (on_page []))) =
      calls (on_page []) @ xs @
        [Click (TestId ''route-form-service-id'') j, Click (Text ''test-service'') k] @ ys) \<and>
   (\<forall>d. query unbound_env (TestId ''route-form-service-id'') d = []) \<and>
   fst (createRoute unbound_env ''test-route'' ''/test-path'' (on_page [])) \<noteq> None"
proof -
  have run: "createRoute bound_env ''test-route'' ''/test-path'' (on_page []) =
     (None,
      \<lparr>elems = route_form_page @ [button],
       calls = [Goto ''/default/routes/create'', WaitForLoadState, WaitForTimeout 2000,
                Fill (TestId ''route-form-name'') 0 ''test-route'',
                Click (TestId ''route-form-service-id'') 2, Click (Text ''test-service'') 2,
                Fill (TestId ''route-form-paths-input-1'') 1 ''/test-path'',
                Click (Role ''button'' ''/save/i'') 2]\<rparr>)"
    by code_simp
  then have completes: "fst (createRoute bound_env ''test-route'' ''/test-path'' (on_page [])) = None"
    by simp
  from createRoute_binds_unconditionally [of bound_env "''test-route''" "''/test-path''" "on_page []"]
    completes
  have both: "\<exists>xs j k ys. calls (snd (createRoute bound_env ''test-route'' ''/test-path'' (on_page []))) =
      calls (on_page []) @ xs @
        [Click (TestId ''route-form-service-id'') j, Click (Text ''test-service'') k] @ ys"
    by blast
  have absent: "\<forall>d. query unbound_env (TestId ''route-form-service-id'') d = []"
    by (simp add: unbound_env_def app_env_def matching_def allInputs_def)
  from createRoute_binds_unconditionally [of unbound_env "''test-route''" "''/test-path''" "on_page []"]
    absent
  have "fst (createRoute unbound_env ''test-route'' ''/test-path'' (on_page [])) \<noteq> None"
    by blast
  with run both absent show ?thesis by (intro conjI)
qed

text \<open>
  The claim as stated fails where the picker is absent: the workflow ends with the
  click's timeout, after the name has been filled.
\<close>

theorem createRoute_absent_picker_counterexample:
  "resolve unbound_env (TestId ''route-form-service-id'') route_form_page = [] \<and>
   createRoute unbound_env ''test-route'' ''/test-path'' (on_page []) =
     (Some TimeoutError,
      \<lparr>elems = [(route_form_page ! 0)\<lparr>val := ''test-route''\<rparr>, route_form_page ! 1],
       calls = [Goto ''/default/routes/create'', WaitForLoadState, WaitForTimeout 2000,
                Fill (TestId ''route-form-name'') 0 ''test-route'']\<rparr>)"
  by code_simp

section \<open>Filling the route fields: the claim\<close>

text \<open>
  C1 (as amended). The three ways of filling the route name are not chained; they belong
  to two variants of the workflow.
  \<^item> createRoute addresses the name field by its test identifier only: when that field
    cannot be resolved the workflow raises, and it has made no call but the navigation
    and its waits.
  \<^item> The heuristic variant never addresses an element by a test identifier. It scans all
    text inputs in document order; when the scan does not raise, it has written the route
    name into the first visible input whose name and placeholder are each absent or empty,
    and the path into the first visible input whose name or placeholder contains \<open>path\<close>
    in any letter case, and it has changed nothing else.
  \<^item> Every call of the fill phase is a fill: through a scanned input, or through the
    direct name locator, which happens only when no input qualifies as the name field, or
    through the direct path locator, only when no input qualifies as the path field.
\<close>

theorem route_fields_layers:
  "((\<forall>d. query env (TestId ''route-form-name'') d = []) \<longrightarrow>
      fst (createRoute env name path s) \<noteq> None \<and>
      (\<exists>xs. calls (snd (createRoute env name path s)) = calls s @ xs \<and>
            list_all is_navigation xs)) \<and>
   (\<exists>xs. calls (snd (fill_route_fields env s)) = calls s @ xs \<and>
         list_all (fills_route_field env s) xs \<and> list_all no_test_id xs) \<and>
   (\<forall>nf pf s'. scan_inputs env [0..<count env allInputs s] (False, False) s = (None, (nf, pf), s') \<longrightarrow>
      nf = (first_input unlabelled env s \<noteq> None) \<and>
      pf = (first_input mentions_path env s \<noteq> None) \<and>
      length (elems s') = length (elems s) \<and>
      (\<forall>j<length (elems s). elems s' ! j =
         (if first_input unlabelled env s = Some j then (elems s ! j)\<lparr>val := ''test-route''\<rparr>
          else if first_input mentions_path env s = Some j then (elems s ! j)\<lparr>val := ''/test-path''\<rparr>
          else elems s ! j)))"
proof -
  let ?pre = "[goto env ''/default/routes/create'', waitForLoadState env, waitForTimeout env 2000]"
  let ?rest = "[fill env (TestId ''route-form-name'') name,
       click env (TestId ''route-form-service-id''),
       click env (Text ''test-service''),
       fill env (TestId ''route-form-paths-input-1'') path,
       click env (Role ''button'' ''/save/i'')]"
  have cr: "createRoute env name path s = steps (?pre @ ?rest) s"
    by (simp add: createRoute_def)
  obtain r3 s3 where pre: "steps ?pre s = (r3, s3)"
    by (cases "steps ?pre s") auto
  have "emits is_navigation (steps ?pre)"
    by (intro emits_steps)
       (simp add: emits_goto emits_waitForLoadState emits_waitForTimeout is_navigation_def)
  from emitsD [OF this, of s] pre obtain xs where xs: "calls s3 = calls s @ xs"
    and nav: "list_all is_navigation xs"
    by auto
  have by_test_id: "fst (createRoute env name path s) \<noteq> None \<and>
      (\<exists>xs. calls (snd (createRoute env name path s)) = calls s @ xs \<and> list_all is_navigation xs)"
    if absent: "\<forall>d. query env (TestId ''route-form-name'') d = []"
  proof -
    have res: "createRoute env name path s = (if r3 = None then (Some TimeoutError, s3) else (r3, s3))"
      using pre fill_unresolved [OF absent] unfolding cr steps_append by (cases r3) auto
    with xs nav show ?thesis by (cases r3) auto
  qed
  from fill_route_fields_calls [of env s] obtain ys where
    c: "calls (snd (fill_route_fields env s)) = calls s @ ys" and
    P: "list_all (fills_route_field env s) ys"
    by blast
  from P have "list_all no_test_id ys"
    by (rule list.pred_mono_strong) (rule fills_route_field_no_test_id)
  with c P have phase: "\<exists>xs. calls (snd (fill_route_fields env s)) = calls s @ xs \<and>
         list_all (fills_route_field env s) xs \<and> list_all no_test_id xs"
    by blast
  have scan: "\<forall>nf pf s'. scan_inputs env [0..<count env allInputs s] (False, False) s = (None, (nf, pf), s') \<longrightarrow>
      nf = (first_input unlabelled env s \<noteq> None) \<and>
      pf = (first_input mentions_path env s \<noteq> None) \<and>
      length (elems s') = length (elems s) \<and>
      (\<forall>j<length (elems s). elems s' ! j =
         (if first_input unlabelled env s = Some j then (elems s ! j)\<lparr>val := ''test-route''\<rparr>
          else if first_input mentions_path env s = Some j then (elems s ! j)\<lparr>val := ''/test-path''\<rparr>
          else elems s ! j))"
    by (intro allI impI) (rule scan_inputs_first_input)
  have first: "(\<forall>d. query env (TestId ''route-form-name'') d = []) \<longrightarrow>
      fst (createRoute env name path s) \<noteq> None \<and>
      (\<exists>xs. calls (snd (createRoute env name path s)) = calls s @ xs \<and> list_all is_navigation xs)"
    by (rule impI) (rule by_test_id)
  show ?thesis
    by (intro conjI) (rule first, rule phase, rule scan)
qed

theorem route_fields_layers_witness:
  "(\<forall>d. query (inputs_env route_form_page [0, 1]) (TestId ''route-form-name'') d = []) \<and>
   fst (createRoute (inputs_env route_form_page [0, 1]) ''test-route'' ''/test-path'' (on_page [])) \<noteq> None \<and>
   scan_inputs (inputs_env route_form_page [0, 1])
       [0..<count (inputs_env route_form_page [0, 1]) allInputs (on_page route_form_page)]
       (False, False) (on_page route_form_page) =
     (None, (True, True),
      \<lparr>elems = [(route_form_page ! 0)\<lparr>val := ''test-route''\<rparr>,
                (route_form_page ! 1)\<lparr>val := ''/test-path''\<rparr>],
       calls = [Fill (Nth allInputs 0) 0 ''test-route'', Fill (Nth allInputs 1) 1 ''/test-path'']\<rparr>) \<and>
   first_input unlabelled (inputs_env route_form_page [0, 1]) (on_page route_form_page) \<noteq> None \<and>
   first_input mentions_path (inputs_env route_form_page [0, 1]) (on_page route_form_page) \<noteq> None \<and>
   first_input unlabelled fallback_env (on_page labelled_name_page) = None \<and>
   fill_route_fields fallback_env (on_page labelled_name_page) =
     (None, \<lparr>elems = [(labelled_name_page ! 0)\<lparr>val := ''test-route''\<rparr>],
              calls = [Fill nameInput 0 ''test-route'']\<rparr>)"
proof -
  let ?env = "inputs_env route_form_page [0, 1]"
  let ?s = "on_page route_form_page"
  have absent: "\<forall>d. query ?env (TestId ''route-form-name'') d = []"
    by (simp add: inputs_env_def app_env_def matching_def allInputs_def)
  have scan: "scan_inputs ?env [0..<count ?env allInputs ?s] (False, False) ?s =
     (None, (True, True),
      \<lparr>elems = [(route_form_page ! 0)\<lparr>val := ''test-route''\<rparr>,
                (route_form_page ! 1)\<lparr>val := ''/test-path''\<rparr>],
       calls = [Fill (Nth allInputs 0) 0 ''test-route'', Fill (Nth allInputs 1) 1 ''/test-path'']\<rparr>)"
    by code_simp
  have fb1: "first_input unlabelled fallback_env (on_page labelled_name_page) = None"
    by code_simp
  have fb2: "fill_route_fields fallback_env (on_page labelled_name_page) =
     (None, \<lparr>elems = [(labelled_name_page ! 0)\<lparr>val := ''test-route''\<rparr>],
              calls = [Fill nameInput 0 ''test-route'']\<rparr>)"
    by code_simp
  from route_fields_layers [of ?env "''test-route''" "''/test-path''" "on_page []"] absent
  have raised: "fst (createRoute ?env ''test-route'' ''/test-path'' (on_page [])) \<noteq> None"
    by blast
  from route_fields_layers [of ?env _ _ ?s] scan
  have "True = (first_input unlabelled ?env ?s \<noteq> None)"
    and "True = (first_input mentions_path ?env ?s \<noteq> None)"
    by blast+
  then have "first_input unlabelled ?env ?s \<noteq> None" and "first_input mentions_path ?env ?s \<noteq> None"
    by simp_all
  with absent raised scan fb1 fb2 show ?thesis by (intro conjI)
qed

text \<open>
  The claim as stated fails in both variants. With no test-identifier field but a visible
  unlabelled text input on the page, createRoute raises and scans nothing. With a field
  addressed by the test identifier on the page, the heuristic variant does not try it: it
  writes the name into the first unlabelled input instead.
\<close>

theorem route_fields_layers_counterexample:
  "resolve (inputs_env route_form_page [0, 1]) (TestId ''route-form-name'') route_form_page = [] \<and>
   first_input unlabelled (inputs_env route_form_page [0, 1]) (on_page route_form_page) = Some 0 \<and>
   createRoute (inputs_env route_form_page [0, 1]) ''test-route'' ''/test-path'' (on_page []) =
     (Some TimeoutError,
      \<lparr>elems = route_form_page,
       calls = [Goto ''/default/routes/create'', WaitForLoadState, WaitForTimeout 2000]\<rparr>) \<and>
   resolve test_id_env (TestId ''route-form-name'') search_and_name_page = [1] \<and>
   fill_route_fields test_id_env (on_page search_and_name_page) =
     (None,
      \<lparr>elems = [(search_and_name_page ! 0)\<lparr>val := ''test-route''\<rparr>, search_and_name_page ! 1],
       calls = [Fill (Nth allInputs 0) 0 ''test-route'']\<rparr>)"
  by code_simp

end
